theory Spec2Isabelle
  imports Main "HOL-Library.AList" "HOL-Library.Sublist"
begin

section \<open>Lecture notes to web story: the pipeline of app.py and app-single.py\<close>

text \<open>
  The repository has two variants of one pipeline: \<^verbatim>\<open>app-single.py\<close> (variant 1, fixed
  template, portrait cover) and \<^verbatim>\<open>app.py\<close> (variant 2, uploaded template, JSON export).
  Their helper functions are modelled here as HOL functions. Everything outside the two
  files (the chat, image, speech and storage services, the JSON decoder, the imaging
  library) is a field of the record \<open>services\<close>: a call may return a value or raise.
\<close>

datatype variant = AppSingle | App

subsection \<open>Values, exceptions, events\<close>

text \<open>
  The Story Record is whatever \<^verbatim>\<open>json.loads\<close> returned, so its values are JSON values.
  A float is kept as mantissa and decimal exponent; only its being zero is observed.
\<close>

datatype json =
    JNull
  | JBool bool
  | JInt int
  | JFloat int int
  | JStr string
  | JArr "json list"
  | JObj "(string \<times> json) list"

datatype exn_kind =
  KeyError | TypeError | AttributeError | NameError | JSONDecodeError | ExternalError

datatype exn = Exn exn_kind string

type_synonym bytes = string

text \<open>What a run does that the outside can see: messages shown to the user and requests
  sent to a service, in the order they happen.\<close>

datatype event =
    Warning string
  | Error string
  | ChatRequest string string
  | ImageRequest nat json
  | Fetch string
  | FetchFallback string
  | Upload string bytes
  | Speak json string
  | UploadFile string string

text \<open>A computation yields the events it caused and either an uncaught exception or a value.\<close>

type_synonym 'a io = "event list \<times> (exn + 'a)"

definition ret :: "'a \<Rightarrow> 'a io" where
  "ret x = ([], Inr x)"

definition lift :: "exn + 'a \<Rightarrow> 'a io" where
  "lift r = ([], r)"

definition emit :: "event \<Rightarrow> unit io" where
  "emit ev = ([ev], Inr ())"

definition call :: "event \<Rightarrow> exn + 'a \<Rightarrow> 'a io" where
  "call ev r = ([ev], r)"

definition bind_io :: "'a io \<Rightarrow> ('a \<Rightarrow> 'b io) \<Rightarrow> 'b io" where
  "bind_io m f =
     (case m of
        (es, Inl e) \<Rightarrow> (es, Inl e)
      | (es, Inr x) \<Rightarrow> (case f x of (es', r) \<Rightarrow> (es @ es', r)))"

text \<open>\<^verbatim>\<open>try: m  except Exception as e: h(e)\<close>; every exception of the model is an
  \<^verbatim>\<open>Exception\<close>.\<close>

definition try_except :: "'a io \<Rightarrow> (exn \<Rightarrow> 'a io) \<Rightarrow> 'a io" where
  "try_except m h =
     (case m of
        (es, Inl e) \<Rightarrow> (case h e of (es', r) \<Rightarrow> (es @ es', r))
      | (es, Inr x) \<Rightarrow> (es, Inr x))"

definition bind_exn :: "exn + 'a \<Rightarrow> ('a \<Rightarrow> exn + 'b) \<Rightarrow> exn + 'b" where
  "bind_exn m f = (case m of Inl e \<Rightarrow> Inl e | Inr x \<Rightarrow> f x)"

fun traverse :: "('a \<Rightarrow> exn + 'b) \<Rightarrow> 'a list \<Rightarrow> exn + 'b list" where
  "traverse f [] = Inr []"
| "traverse f (x # xs) =
     (case f x of
        Inl e \<Rightarrow> Inl e
      | Inr y \<Rightarrow> (case traverse f xs of Inl e \<Rightarrow> Inl e | Inr ys \<Rightarrow> Inr (y # ys)))"

subsection \<open>Python strings\<close>

text \<open>
  A \<open>char\<close> stands for a code point below 256. \<^verbatim>\<open>str.lower\<close> maps A-Z and the
  upper-case letters of Latin-1 (192-222 without the multiplication sign 215) to the letter
  32 above; \<^verbatim>\<open>str.strip\<close> removes the code points that \<^verbatim>\<open>str.isspace\<close> accepts.
\<close>

definition lower_char :: "char \<Rightarrow> char" where
  "lower_char c =
     (let n = (of_char c :: nat) in
      if (65 \<le> n \<and> n \<le> 90) \<or> (192 \<le> n \<and> n \<le> 222 \<and> n \<noteq> 215)
      then char_of (n + 32) else c)"

definition lower :: "string \<Rightarrow> string" where
  "lower s = map lower_char s"

definition isspace :: "char \<Rightarrow> bool" where
  "isspace c =
     (let n = (of_char c :: nat) in
      (9 \<le> n \<and> n \<le> 13) \<or> (28 \<le> n \<and> n \<le> 32) \<or> n = 133 \<or> n = 160)"

definition strip :: "string \<Rightarrow> string" where
  "strip s = rev (dropWhile isspace (rev (dropWhile isspace s)))"

text \<open>\<^verbatim>\<open>s.replace(old, new)\<close>: the occurrences of \<open>old\<close> are found from the left and do not
  overlap; an empty \<open>old\<close> matches before every character and at the end.\<close>

function replace :: "string \<Rightarrow> string \<Rightarrow> string \<Rightarrow> string" where
  "replace old new [] = (if old = [] then new else [])"
| "replace old new (c # cs) =
     (if old = [] then new @ c # replace old new cs
      else if prefix old (c # cs) then new @ replace old new (drop (length old) (c # cs))
      else c # replace old new cs)"
  by pat_completeness auto
termination
  by (relation "measure (\<lambda>(old, new, s). length s)") auto

fun join :: "string \<Rightarrow> string list \<Rightarrow> string" where
  "join sep [] = []"
| "join sep [x] = x"
| "join sep (x # y # ys) = x @ sep @ join sep (y # ys)"

fun str_nat :: "nat \<Rightarrow> string" where
  "str_nat n =
     (if n < 10 then [char_of (48 + n)]
      else str_nat (n div 10) @ [char_of (48 + n mod 10)])"

declare str_nat.simps [simp del]

definition repr :: "string \<Rightarrow> string" where
  "repr k = [CHR 0x27] @ k @ [CHR 0x27]"

subsection \<open>Dictionaries\<close>

text \<open>A Python dict keeps insertion order: an association list with one entry per key.
  Assigning to a present key keeps its position, a new key goes to the end.\<close>

type_synonym story = "(string \<times> json) list"

definition dict_set :: "story \<Rightarrow> string \<Rightarrow> json \<Rightarrow> story" where
  "dict_set d k v = AList.update k v d"

definition dict_update :: "story \<Rightarrow> (string \<times> json) list \<Rightarrow> story" where
  "dict_update d e = foldl (\<lambda>acc (k, v). dict_set acc k v) d e"

definition getitem :: "story \<Rightarrow> string \<Rightarrow> exn + json" where
  "getitem d k = (case map_of d k of None \<Rightarrow> Inl (Exn KeyError (repr k)) | Some v \<Rightarrow> Inr v)"

definition get_default :: "story \<Rightarrow> string \<Rightarrow> json \<Rightarrow> json" where
  "get_default d k dflt = (case map_of d k of None \<Rightarrow> dflt | Some v \<Rightarrow> v)"

text \<open>The name of the Python type of a decoded value, as exception messages print it.\<close>

fun type_name :: "json \<Rightarrow> string" where
  "type_name JNull = ''NoneType''"
| "type_name (JBool b) = ''bool''"
| "type_name (JInt n) = ''int''"
| "type_name (JFloat m e) = ''float''"
| "type_name (JStr s) = ''str''"
| "type_name (JArr xs) = ''list''"
| "type_name (JObj kvs) = ''dict''"

fun truthy :: "json \<Rightarrow> bool" where
  "truthy JNull = False"
| "truthy (JBool b) = b"
| "truthy (JInt n) = (n \<noteq> 0)"
| "truthy (JFloat m e) = (m \<noteq> 0)"
| "truthy (JStr s) = (s \<noteq> [])"
| "truthy (JArr xs) = (xs \<noteq> [])"
| "truthy (JObj kvs) = (kvs \<noteq> [])"

subsection \<open>Configuration and services\<close>

record config =
  DALE_ENDPOINT :: string
  AWS_BUCKET :: string
  S3_PREFIX :: string
  CDN_BASE :: string
  DEFAULT_ERROR_IMAGE :: string

text \<open>
  The outside world. \<open>loads\<close> is \<^verbatim>\<open>json.loads\<close> (\<open>None\<close>: JSONDecodeError); \<open>py_str\<close> is
  what an f-string prints for a value that is not a string; \<open>chat_completion\<close> is the POST
  of \<^verbatim>\<open>call_gpt_system\<close> / \<^verbatim>\<open>chat_completion\<close> with its system message, user message and
  token budget (the sampling temperature is passed on and decides nothing here);
  \<open>post_image\<close> is the image request up to the URL in its answer; the calls of the image
  loop are indexed by the slide, so each slide may fare differently.
\<close>

record 'img services =
  loads :: "string \<Rightarrow> json option"
  py_str :: "json \<Rightarrow> string"
  chat_completion :: "string \<Rightarrow> string \<Rightarrow> nat \<Rightarrow> exn + string"
  post_image :: "nat \<Rightarrow> json \<Rightarrow> exn + string"
  http_get_content :: "nat \<Rightarrow> string \<Rightarrow> exn + bytes"
  http_get_raw :: "nat \<Rightarrow> string \<Rightarrow> exn + bytes"
  image_open :: "bytes \<Rightarrow> exn + 'img"
  pil_convert :: "string \<Rightarrow> 'img \<Rightarrow> exn + 'img"
  pil_resize :: "nat \<times> nat \<Rightarrow> 'img \<Rightarrow> exn + 'img"
  save_jpeg :: "'img \<Rightarrow> exn + bytes"
  upload_fileobj :: "bytes \<Rightarrow> string \<Rightarrow> string \<Rightarrow> exn + unit"
  uuid4_hex :: "string \<Rightarrow> string"
  speak_text :: "json \<Rightarrow> string \<Rightarrow> exn + unit"
  upload_file :: "string \<Rightarrow> string \<Rightarrow> string \<Rightarrow> exn + unit"

subsection \<open>fill_template\<close>

definition placeholder :: "string \<Rightarrow> string" where
  "placeholder k = ''{{'' @ k @ ''}}''"

text \<open>\<^verbatim>\<open>for k, v in story.items(): template = template.replace("{{k}}", v)\<close>;
  \<^verbatim>\<open>str.replace\<close> raises TypeError when \<open>v\<close> is not a string.\<close>

fun fill_template :: "string \<Rightarrow> story \<Rightarrow> exn + string" where
  "fill_template template [] = Inr template"
| "fill_template template ((k, v) # items) =
     (case v of
        JStr s \<Rightarrow> fill_template (replace (placeholder k) s template) items
      | _ \<Rightarrow> Inl (Exn TypeError (''replace() argument 2 must be str, not '' @ type_name v)))"

subsection \<open>The slug\<close>

definition str_method :: "string \<Rightarrow> json \<Rightarrow> exn + string" where
  "str_method name v =
     (case v of
        JStr s \<Rightarrow> Inr s
      | _ \<Rightarrow> Inl (Exn AttributeError
                  (repr (type_name v) @ '' object has no attribute '' @ repr name)))"

text \<open>\<^verbatim>\<open>story['storytitle'].lower().replace(' ', '-')\<close>, in app-single.py followed by
  \<^verbatim>\<open>.replace(":", "")\<close>.\<close>

definition slug_of_title :: "variant \<Rightarrow> string \<Rightarrow> string" where
  "slug_of_title var title =
     (case var of
        App \<Rightarrow> replace '' '' ''-'' (lower title)
      | AppSingle \<Rightarrow> replace '':'' [] (replace '' '' ''-'' (lower title)))"

definition slug :: "variant \<Rightarrow> story \<Rightarrow> exn + string" where
  "slug var story =
     bind_exn (getitem story ''storytitle'') (\<lambda>v.
     bind_exn (str_method ''lower'' v) (\<lambda>title. Inr (slug_of_title var title)))"

subsection \<open>generate_seo\<close>

text \<open>The prompt. app.py joins the five paragraphs first and reads the title afterwards;
  app-single.py reads the title first. A missing key raises KeyError at the first lookup
  that fails.\<close>

definition format_value :: "'img services \<Rightarrow> json \<Rightarrow> string" where
  "format_value srv v = (case v of JStr s \<Rightarrow> s | _ \<Rightarrow> py_str srv v)"

definition paragraph_key :: "nat \<Rightarrow> string" where
  "paragraph_key i = ''s'' @ str_nat i @ ''paragraph1''"

definition formatted :: "'img services \<Rightarrow> story \<Rightarrow> string \<Rightarrow> exn + string" where
  "formatted srv story k = bind_exn (getitem story k) (\<lambda>v. Inr (format_value srv v))"

definition seo_prompt :: "variant \<Rightarrow> 'img services \<Rightarrow> story \<Rightarrow> exn + string" where
  "seo_prompt var srv story =
     (case var of
        App \<Rightarrow>
          bind_exn (traverse (\<lambda>i. formatted srv story (paragraph_key i)) [2..<7]) (\<lambda>ps.
          bind_exn (formatted srv story ''storytitle'') (\<lambda>title.
          Inr (''Generate SEO metadata strictly as JSON. Wrap in ```json``` only.\<newline>''
               @ ''Title: '' @ title @ ''\<newline>Slides:\<newline>''
               @ join ''\<newline>'' (map (\<lambda>p. ''- '' @ p) ps)
               @ ''\<newline>Return keys: metadescription, metakeywords.'')))
      | AppSingle \<Rightarrow>
          bind_exn (formatted srv story ''storytitle'') (\<lambda>title.
          bind_exn (traverse (\<lambda>i. formatted srv story (paragraph_key i)) [2..<7]) (\<lambda>ps.
          Inr (''Generate SEO metadata *strictly* as JSON. ''
               @ ''Wrap your answer in ```json ... ``` with no extra text.\<newline>\<newline>''
               @ ''Title: '' @ title @ ''\<newline>Slides:\<newline>''
               @ concat (map (\<lambda>p. ''- '' @ p @ ''\<newline>'') ps)
               @ ''Return keys: metadescription, metakeywords.''))))"

text \<open>\<^verbatim>\<open>re.search(r"```json(.*?)```", content, re.S)\<close>: the start positions are tried from the
  left; at a position where the opening fence stands, the lazy group takes the text up to
  the first closing fence after it; when there is none the next position is tried.\<close>

definition fence_open :: string where
  "fence_open = ''```json''"

definition fence_close :: string where
  "fence_close = ''```''"

fun find_first :: "string \<Rightarrow> string \<Rightarrow> (string \<times> string) option" where
  "find_first pat [] = (if pat = [] then Some ([], []) else None)"
| "find_first pat (c # cs) =
     (if prefix pat (c # cs) then Some ([], drop (length pat) (c # cs))
      else map_option (\<lambda>(b, a). (c # b, a)) (find_first pat cs))"

fun re_search_fence :: "string \<Rightarrow> string option" where
  "re_search_fence [] = None"
| "re_search_fence (c # cs) =
     (if prefix fence_open (c # cs)
      then (case find_first fence_close (drop (length fence_open) (c # cs)) of
              Some (body, rest) \<Rightarrow> Some body
            | None \<Rightarrow> re_search_fence cs)
      else re_search_fence cs)"

text \<open>\<^verbatim>\<open>raw = m.group(1).strip() if m else content.strip()\<close>\<close>

definition seo_raw :: "string \<Rightarrow> string" where
  "seo_raw content =
     (case re_search_fence content of Some g \<Rightarrow> strip g | None \<Rightarrow> strip content)"

definition seo_system :: string where
  "seo_system = ''You are an expert SEO assistant.''"

text \<open>The text of the warning, after its warning sign (U+26A0 U+FE0F, outside the 8-bit
  characters of the model) and the space that follows it.\<close>

definition seo_warning :: "variant \<Rightarrow> string" where
  "seo_warning var =
     (case var of
        App \<Rightarrow> ''SEO parsing failed; using empty metadata.''
      | AppSingle \<Rightarrow> ''SEO JSON parse failed; using empty metadata.'')"

definition seo_default :: json where
  "seo_default = JObj [(''metadescription'', JStr []), (''metakeywords'', JStr [])]"

definition generate_seo :: "variant \<Rightarrow> 'img services \<Rightarrow> story \<Rightarrow> json io" where
  "generate_seo var srv story =
     bind_io (lift (seo_prompt var srv story)) (\<lambda>prompt.
     bind_io (call (ChatRequest seo_system prompt) (chat_completion srv seo_system prompt 300))
       (\<lambda>content.
          case loads srv (seo_raw content) of
            Some v \<Rightarrow> ret v
          | None \<Rightarrow> bind_io (emit (Warning (seo_warning var))) (\<lambda>_. ret seo_default)))"

subsection \<open>The image pipeline\<close>

definition normalize :: "'img services \<Rightarrow> 'img \<Rightarrow> exn + 'img" where
  "normalize srv img =
     bind_exn (pil_convert srv ''RGB'' img) (\<lambda>rgb. pil_resize srv (720, 1200) rgb)"

definition alt_key :: "nat \<Rightarrow> string" where
  "alt_key i = ''s'' @ str_nat i @ ''alt1''"

definition image_key :: "nat \<Rightarrow> string" where
  "image_key i = ''s'' @ str_nat i @ ''image1''"

definition exn_str :: "exn \<Rightarrow> string" where
  "exn_str e = (case e of Exn kind msg \<Rightarrow> msg)"

definition image_error :: "variant \<Rightarrow> nat \<Rightarrow> exn \<Rightarrow> string" where
  "image_error var i e =
     (case var of
        App \<Rightarrow> ''Image gen failed slide '' @ str_nat i @ '': '' @ exn_str e
      | AppSingle \<Rightarrow> ''Image gen failed for slide '' @ str_nat i @ '': '' @ exn_str e)"

text \<open>The body of the \<^verbatim>\<open>try\<close>: request, fetch, decode, normalize.\<close>

definition generated_image :: "'img services \<Rightarrow> nat \<Rightarrow> json \<Rightarrow> 'img io" where
  "generated_image srv i prompt =
     bind_io (call (ImageRequest i prompt) (post_image srv i prompt)) (\<lambda>url.
     bind_io (call (Fetch url) (http_get_content srv i url)) (\<lambda>data.
     bind_io (lift (image_open srv data)) (\<lambda>img.
     lift (normalize srv img))))"

text \<open>The \<^verbatim>\<open>except\<close> branch: the error is shown, the fallback image is fetched, decoded and
  normalized; nothing catches a failure here.\<close>

definition fallback_image :: "variant \<Rightarrow> config \<Rightarrow> 'img services \<Rightarrow> nat \<Rightarrow> exn \<Rightarrow> 'img io" where
  "fallback_image var cfg srv i e =
     bind_io (emit (Error (image_error var i e))) (\<lambda>_.
     bind_io (call (FetchFallback (DEFAULT_ERROR_IMAGE cfg))
                (http_get_raw srv i (DEFAULT_ERROR_IMAGE cfg))) (\<lambda>raw.
     bind_io (lift (image_open srv raw)) (\<lambda>img.
     lift (normalize srv img))))"

definition slide_image :: "variant \<Rightarrow> config \<Rightarrow> 'img services \<Rightarrow> nat \<Rightarrow> json \<Rightarrow> 'img io" where
  "slide_image var cfg srv i prompt =
     try_except (generated_image srv i prompt) (fallback_image var cfg srv i)"

definition cdn_url :: "variant \<Rightarrow> config \<Rightarrow> string \<Rightarrow> string" where
  "cdn_url var cfg key =
     (case var of App \<Rightarrow> CDN_BASE cfg @ ''/'' @ key | AppSingle \<Rightarrow> CDN_BASE cfg @ key)"

definition slide_object_key :: "config \<Rightarrow> string \<Rightarrow> nat \<Rightarrow> string" where
  "slide_object_key cfg slg i = S3_PREFIX cfg @ ''/'' @ slg @ ''/slide'' @ str_nat i @ ''.jpg''"

definition cover_object_key :: "config \<Rightarrow> string \<Rightarrow> string" where
  "cover_object_key cfg slg = S3_PREFIX cfg @ ''/'' @ slg @ ''/portrait_cover.jpg''"

text \<open>\<^verbatim>\<open>buf = BytesIO(); img.save(buf, "JPEG"); buf.seek(0); s3.upload_fileobj(buf, AWS_BUCKET, key)\<close>\<close>

definition publish :: "config \<Rightarrow> 'img services \<Rightarrow> 'img \<Rightarrow> string \<Rightarrow> unit io" where
  "publish cfg srv img key =
     bind_io (lift (save_jpeg srv img)) (\<lambda>buf.
     call (Upload key buf) (upload_fileobj srv buf (AWS_BUCKET cfg) key))"

text \<open>One pass of the loop body for slide \<open>i\<close>; it returns the record and the image that
  the variable \<^verbatim>\<open>img\<close> now holds.\<close>

definition slide_step ::
  "variant \<Rightarrow> config \<Rightarrow> 'img services \<Rightarrow> string \<Rightarrow> story \<Rightarrow> nat \<Rightarrow> (story \<times> 'img) io" where
  "slide_step var cfg srv slg story i =
     bind_io (slide_image var cfg srv i (get_default story (alt_key i) (JStr []))) (\<lambda>img.
     bind_io (publish cfg srv img (slide_object_key cfg slg i)) (\<lambda>_.
     ret (dict_set story (image_key i) (JStr (cdn_url var cfg (slide_object_key cfg slg i))),
          img)))"

fun image_loop ::
  "variant \<Rightarrow> config \<Rightarrow> 'img services \<Rightarrow> string \<Rightarrow> nat list \<Rightarrow> story \<times> 'img option
     \<Rightarrow> (story \<times> 'img option) io" where
  "image_loop var cfg srv slg [] st = ret st"
| "image_loop var cfg srv slg (i # rest) st =
     bind_io (slide_step var cfg srv slg (fst st) i) (\<lambda>(story', img).
     image_loop var cfg srv slg rest (story', Some img))"

text \<open>app.py, \<^verbatim>\<open>generate_images\<close>.\<close>

definition generate_images :: "config \<Rightarrow> 'img services \<Rightarrow> story \<Rightarrow> story io" where
  "generate_images cfg srv story =
     bind_io (lift (slug App story)) (\<lambda>slg.
     bind_io (image_loop App cfg srv slg [1..<7] (story, None)) (\<lambda>(story', last_img).
     ret story'))"

text \<open>app-single.py, \<^verbatim>\<open>generate_images_and_upload\<close>: after the loop \<^verbatim>\<open>cover_img = img\<close>.\<close>

definition generate_images_and_upload :: "config \<Rightarrow> 'img services \<Rightarrow> story \<Rightarrow> story io" where
  "generate_images_and_upload cfg srv story =
     bind_io (lift (slug AppSingle story)) (\<lambda>slg.
     bind_io (image_loop AppSingle cfg srv slg [1..<7] (story, None)) (\<lambda>(story', last_img).
     case last_img of
       None \<Rightarrow> lift (Inl (Exn NameError ''img''))
     | Some cover_img \<Rightarrow>
         bind_io (publish cfg srv cover_img (cover_object_key cfg slg)) (\<lambda>_.
         ret (dict_set story' ''portraitcoverurl''
                (JStr (cdn_url AppSingle cfg (cover_object_key cfg slg)))))))"

subsection \<open>The narration pipeline\<close>

definition audio_fields :: "(string \<times> string) list" where
  "audio_fields =
     [(''storytitle'', ''s1audio1''), (''s2paragraph1'', ''s2audio1''),
      (''s3paragraph1'', ''s3audio1''), (''s4paragraph1'', ''s4audio1''),
      (''s5paragraph1'', ''s5audio1''), (''s6paragraph1'', ''s6audio1'')]"

definition audio_file :: "'img services \<Rightarrow> string \<Rightarrow> string" where
  "audio_file srv field = uuid4_hex srv field @ ''.mp3''"

definition audio_object_key :: "config \<Rightarrow> 'img services \<Rightarrow> string \<Rightarrow> string" where
  "audio_object_key cfg srv field = S3_PREFIX cfg @ ''/audio/'' @ audio_file srv field"

text \<open>The loop body up to the URL: \<open>None\<close> when the field is skipped by \<^verbatim>\<open>continue\<close>.\<close>

definition narrate ::
  "variant \<Rightarrow> config \<Rightarrow> 'img services \<Rightarrow> story \<Rightarrow> string \<Rightarrow> string option io" where
  "narrate var cfg srv story field =
     (case map_of story field of
        None \<Rightarrow> ret None
      | Some text \<Rightarrow>
          if \<not> truthy text then ret None
          else
            bind_io (call (Speak text (audio_file srv field))
                       (speak_text srv text (audio_file srv field))) (\<lambda>_.
            bind_io (call (UploadFile (audio_file srv field) (audio_object_key cfg srv field))
                       (upload_file srv (audio_file srv field) (AWS_BUCKET cfg)
                          (audio_object_key cfg srv field))) (\<lambda>_.
            ret (Some (cdn_url var cfg (audio_object_key cfg srv field))))))"

text \<open>app-single.py, \<^verbatim>\<open>synthesize_and_upload_audio\<close>.\<close>

fun audio_loop_single ::
  "config \<Rightarrow> 'img services \<Rightarrow> (string \<times> string) list \<Rightarrow> story \<Rightarrow> story io" where
  "audio_loop_single cfg srv [] story = ret story"
| "audio_loop_single cfg srv ((field, audio_key) # rest) story =
     bind_io (narrate AppSingle cfg srv story field) (\<lambda>r.
       case r of
         None \<Rightarrow> audio_loop_single cfg srv rest story
       | Some url \<Rightarrow> audio_loop_single cfg srv rest (dict_set story audio_key (JStr url)))"

definition synthesize_and_upload_audio :: "config \<Rightarrow> 'img services \<Rightarrow> story \<Rightarrow> story io" where
  "synthesize_and_upload_audio cfg srv story = audio_loop_single cfg srv audio_fields story"

text \<open>app.py, \<^verbatim>\<open>synthesize_audio\<close>: it also returns \<^verbatim>\<open>cdn_urls\<close>, keyed by the source field.\<close>

fun audio_loop ::
  "config \<Rightarrow> 'img services \<Rightarrow> (string \<times> string) list \<Rightarrow> story \<times> story \<Rightarrow> (story \<times> story) io"
  where
  "audio_loop cfg srv [] st = ret st"
| "audio_loop cfg srv ((field, audio_key) # rest) st =
     bind_io (narrate App cfg srv (fst st) field) (\<lambda>r.
       case r of
         None \<Rightarrow> audio_loop cfg srv rest st
       | Some url \<Rightarrow>
           audio_loop cfg srv rest
             (dict_set (fst st) audio_key (JStr url), dict_set (snd st) field (JStr url)))"

definition synthesize_audio :: "config \<Rightarrow> 'img services \<Rightarrow> story \<Rightarrow> (story \<times> story) io" where
  "synthesize_audio cfg srv story = audio_loop cfg srv audio_fields (story, [])"

subsection \<open>Notions of the specification\<close>

text \<open>A response that holds a fenced block: text, the opening fence, the content, the
  closing fence, text.\<close>

definition fenced :: "string \<Rightarrow> string \<Rightarrow> string \<Rightarrow> string" where
  "fenced pre body post = pre @ fence_open @ body @ fence_close @ post"

text \<open>The fields that the prompt of generate_seo reads.\<close>

definition seo_keys :: "string list" where
  "seo_keys = ''storytitle'' # map paragraph_key [2..<7]"

subsection \<open>A concrete run\<close>

text \<open>A populated record, a configuration (the defaults of app.py) and a world in which
  every call succeeds; the properties below are instantiated on them.\<close>

definition example_response :: string where
  \<open>example_response =
     ''noise ```json\<newline>{"metadescription":"d","metakeywords":"k"}\<newline>``` trailing''\<close>

definition example_metadata :: json where
  "example_metadata = JObj [(''metadescription'', JStr ''d''), (''metakeywords'', JStr ''k'')]"

definition demo_story :: story where
  "demo_story =
     [(''storytitle'', JStr ''How Plants Eat Sunlight''),
      (''s2paragraph1'', JStr ''p2''), (''s3paragraph1'', JStr ''p3''),
      (''s4paragraph1'', JStr ''p4''), (''s5paragraph1'', JStr ''p5''),
      (''s6paragraph1'', JStr ''p6''),
      (''s1alt1'', JStr ''a1''), (''s2alt1'', JStr ''a2''), (''s3alt1'', JStr ''a3''),
      (''s4alt1'', JStr ''a4''), (''s5alt1'', JStr ''a5''), (''s6alt1'', JStr ''a6'')]"

definition demo_config :: config where
  "demo_config =
     \<lparr> DALE_ENDPOINT = ''https://dalle.example'',
       AWS_BUCKET = ''bucket'',
       S3_PREFIX = ''media'',
       CDN_BASE = ''https://media.suvichaar.org'',
       DEFAULT_ERROR_IMAGE = ''https://media.suvichaar.org/default-error.jpg'' \<rparr>"

text \<open>In this world an image is the text it was decoded from, with the operations applied
  to it written in front.\<close>

definition demo_services :: "string services" where
  \<open>demo_services =
     \<lparr> loads = (\<lambda>s. if s = ''{"metadescription":"d","metakeywords":"k"}''
                     then Some example_metadata else None),
       py_str = (\<lambda>v. ''?''),
       chat_completion = (\<lambda>system user max_tokens. Inr example_response),
       post_image = (\<lambda>i prompt. Inr (''https://img.example/'' @ str_nat i)),
       http_get_content = (\<lambda>i url. Inr (''content of '' @ url)),
       http_get_raw = (\<lambda>i url. Inr (''raw of '' @ url)),
       image_open = (\<lambda>data. Inr data),
       pil_convert = (\<lambda>mode img. Inr (mode @ '' '' @ img)),
       pil_resize = (\<lambda>size img. Inr (str_nat (fst size) @ ''x'' @ str_nat (snd size) @ '' '' @ img)),
       save_jpeg = (\<lambda>img. Inr (''JPEG '' @ img)),
       upload_fileobj = (\<lambda>buf bucket key. Inr ()),
       uuid4_hex = (\<lambda>field. ''id-'' @ field),
       speak_text = (\<lambda>text filename. Inr ()),
       upload_file = (\<lambda>filename bucket key. Inr ()) \<rparr>\<close>

text \<open>A world whose chat model answers in prose.\<close>

definition silent_services :: "string services" where
  "silent_services = demo_services\<lparr>chat_completion := (\<lambda>system user max_tokens. Inr ''Sorry, no JSON today.'')\<rparr>"

subsection \<open>Notions for the image pipeline\<close>

text \<open>A computation succeeds when it ends without an uncaught exception.\<close>

definition succeeds :: "'a io \<Rightarrow> bool" where
  "succeeds m = (case snd m of Inl e \<Rightarrow> False | Inr x \<Rightarrow> True)"

text \<open>The value recorded for slide \<open>j\<close>, the prompt of slide \<open>i\<close>, and the image that the
  loop body leaves in \<^verbatim>\<open>img\<close> for slide \<open>j\<close>.\<close>

definition slide_url :: "variant \<Rightarrow> config \<Rightarrow> string \<Rightarrow> nat \<Rightarrow> json" where
  "slide_url var cfg slg j = JStr (cdn_url var cfg (slide_object_key cfg slg j))"

definition slide_prompt :: "story \<Rightarrow> nat \<Rightarrow> json" where
  "slide_prompt story i = get_default story (alt_key i) (JStr [])"

definition step_image ::
  "variant \<Rightarrow> config \<Rightarrow> 'img services \<Rightarrow> string \<Rightarrow> story \<Rightarrow> nat \<Rightarrow> 'img" where
  "step_image var cfg srv slg story j = snd (projr (snd (slide_step var cfg srv slg story j)))"

text \<open>The image pipeline of a variant; the record after all six assignments; the events of
  the six passes of the loop body; the error, if any, of the generated picture of a slide.\<close>

definition is_error :: "event \<Rightarrow> bool" where
  "is_error ev = (case ev of Error msg \<Rightarrow> True | _ \<Rightarrow> False)"

definition image_pipeline :: "variant \<Rightarrow> config \<Rightarrow> 'img services \<Rightarrow> story \<Rightarrow> story io" where
  "image_pipeline var cfg srv story =
     (case var of
        App \<Rightarrow> generate_images cfg srv story
      | AppSingle \<Rightarrow> generate_images_and_upload cfg srv story)"

text \<open>
  What the services give for a slide, in the words of the specification. The generated
  picture: the image is requested for the prompt, fetched from the URL of the answer,
  decoded, converted to RGB and resized to 720 by 1200. The fallback picture: the configured
  fallback image is fetched, decoded, converted to RGB and resized to 720 by 1200. The
  picture of a slide is the generated one or, when that fails, the fallback one; a slide is
  publishable when its picture exists, can be encoded as JPEG and the upload under the key
  of the slide works; the cover is publishable when the upload of the JPEG of slide 6 under
  the cover key works.
\<close>

definition generated_picture :: "'img services \<Rightarrow> nat \<Rightarrow> json \<Rightarrow> exn + 'img" where
  "generated_picture srv i prompt =
     bind_exn (post_image srv i prompt) (\<lambda>url.
     bind_exn (http_get_content srv i url) (\<lambda>data.
     bind_exn (image_open srv data) (\<lambda>img.
     bind_exn (pil_convert srv ''RGB'' img) (\<lambda>rgb.
     pil_resize srv (720, 1200) rgb))))"

definition fallback_picture :: "config \<Rightarrow> 'img services \<Rightarrow> nat \<Rightarrow> exn + 'img" where
  "fallback_picture cfg srv i =
     bind_exn (http_get_raw srv i (DEFAULT_ERROR_IMAGE cfg)) (\<lambda>raw.
     bind_exn (image_open srv raw) (\<lambda>img.
     bind_exn (pil_convert srv ''RGB'' img) (\<lambda>rgb.
     pil_resize srv (720, 1200) rgb)))"

definition slide_picture :: "config \<Rightarrow> 'img services \<Rightarrow> story \<Rightarrow> nat \<Rightarrow> exn + 'img" where
  "slide_picture cfg srv story j =
     (case generated_picture srv j (slide_prompt story j) of
        Inr img \<Rightarrow> Inr img
      | Inl e \<Rightarrow> fallback_picture cfg srv j)"

definition slide_jpeg :: "config \<Rightarrow> 'img services \<Rightarrow> story \<Rightarrow> nat \<Rightarrow> exn + bytes" where
  "slide_jpeg cfg srv story j = bind_exn (slide_picture cfg srv story j) (save_jpeg srv)"

definition publishable :: "config \<Rightarrow> 'img services \<Rightarrow> string \<Rightarrow> story \<Rightarrow> nat \<Rightarrow> bool" where
  "publishable cfg srv slg story j =
     (case slide_jpeg cfg srv story j of
        Inl e \<Rightarrow> False
      | Inr buf \<Rightarrow>
          upload_fileobj srv buf (AWS_BUCKET cfg)
            (S3_PREFIX cfg @ ''/'' @ slg @ ''/slide'' @ str_nat j @ ''.jpg'') = Inr ())"

definition cover_publishable :: "config \<Rightarrow> 'img services \<Rightarrow> string \<Rightarrow> story \<Rightarrow> bool" where
  "cover_publishable cfg srv slg story =
     (case slide_jpeg cfg srv story 6 of
        Inl e \<Rightarrow> False
      | Inr buf \<Rightarrow>
          upload_fileobj srv buf (AWS_BUCKET cfg)
            (S3_PREFIX cfg @ ''/'' @ slg @ ''/portrait_cover.jpg'') = Inr ())"

definition is_image_request :: "event \<Rightarrow> bool" where
  "is_image_request ev = (case ev of ImageRequest i prompt \<Rightarrow> True | _ \<Rightarrow> False)"

definition generation_error :: "'img services \<Rightarrow> story \<Rightarrow> nat \<Rightarrow> exn option" where
  "generation_error srv story j =
     (case generated_picture srv j (slide_prompt story j) of
        Inl e \<Rightarrow> Some e | Inr img \<Rightarrow> None)"

definition recorded :: "variant \<Rightarrow> config \<Rightarrow> string \<Rightarrow> story \<Rightarrow> story" where
  "recorded var cfg slg story =
     foldl (\<lambda>s j. dict_set s (image_key j) (slide_url var cfg slg j)) story [1..<7]"

definition loop_events ::
  "variant \<Rightarrow> config \<Rightarrow> 'img services \<Rightarrow> string \<Rightarrow> story \<Rightarrow> event list" where
  "loop_events var cfg srv slg story =
     concat (map (\<lambda>j. fst (slide_step var cfg srv slg story j)) [1..<7])"

text \<open>A world where the image request of slide 3 fails, and one where the fallback image
  cannot be fetched either.\<close>

definition failing_services :: "string services" where
  "failing_services =
     demo_services\<lparr>post_image := (\<lambda>i prompt.
        if i = 3 then Inl (Exn ExternalError ''boom'') else Inr (''https://img.example/'' @ str_nat i))\<rparr>"

definition broken_services :: "string services" where
  "broken_services =
     failing_services\<lparr>http_get_raw := (\<lambda>i url. Inl (Exn ExternalError ''no fallback''))\<rparr>"

subsection \<open>Notions for the narration pipeline\<close>

text \<open>A source field is a text field when it is absent or holds a string; it is present
  and non-empty when it holds a string that is not empty. The narratable fields are those
  entries of the mapping whose source is present and non-empty. The object key of a clip is
  prefix/audio/name.mp3 with the random name drawn for its source field; the events of a
  narration are, for each narratable field in the order of the mapping, the synthesis of
  its text into the file and the upload of the file; the services are fine for a field when
  these two calls succeed.\<close>

definition text_field :: "story \<Rightarrow> string \<Rightarrow> bool" where
  "text_field story field =
     (case map_of story field of None \<Rightarrow> True | Some (JStr s) \<Rightarrow> True | Some other \<Rightarrow> False)"

definition present_nonempty :: "story \<Rightarrow> string \<Rightarrow> bool" where
  "present_nonempty story field =
     (case map_of story field of Some (JStr s) \<Rightarrow> s \<noteq> [] | _ \<Rightarrow> False)"

definition narratable :: "story \<Rightarrow> (string \<times> string) list" where
  "narratable story = filter (\<lambda>(field, audio_key). present_nonempty story field) audio_fields"

definition audio_key_of :: "config \<Rightarrow> 'img services \<Rightarrow> string \<Rightarrow> string" where
  "audio_key_of cfg srv field = S3_PREFIX cfg @ ''/audio/'' @ uuid4_hex srv field @ ''.mp3''"

definition narration_events :: "config \<Rightarrow> 'img services \<Rightarrow> story \<Rightarrow> event list" where
  "narration_events cfg srv story =
     concat (map (\<lambda>(field, audio_key).
                    [Speak (get_default story field JNull) (uuid4_hex srv field @ ''.mp3''),
                     UploadFile (uuid4_hex srv field @ ''.mp3'') (audio_key_of cfg srv field)])
               (narratable story))"

definition audio_ok :: "config \<Rightarrow> 'img services \<Rightarrow> story \<Rightarrow> string \<Rightarrow> bool" where
  "audio_ok cfg srv story field =
     (speak_text srv (get_default story field JNull) (uuid4_hex srv field @ ''.mp3'') = Inr ()
      \<and> upload_file srv (uuid4_hex srv field @ ''.mp3'') (AWS_BUCKET cfg)
            (audio_key_of cfg srv field) = Inr ())"

text \<open>The populated record with an empty fourth paragraph.\<close>

definition quiet_story :: story where
  "quiet_story = demo_story[3 := (''s4paragraph1'', JStr [])]"

subsection \<open>Notions for the template\<close>

text \<open>
  A template as the specification sees it: literal chunks and placeholders, a placeholder
  being two opening braces, a name and two closing braces. Filling puts the value of the
  field in the place of a placeholder whose name is a field of the record, and leaves
  literal chunks and the placeholders of unknown names as they are. A name is brace free
  when it holds neither brace; a text is plain when it holds no two opening braces in a row
  and does not end with an opening brace. A piece is well formed when it is a plain chunk or
  a placeholder with a brace-free name; an entry of the record fits when its name is brace
  free and its value is a plain string.
\<close>

datatype piece = Lit string | Hole string

fun render_piece :: "piece \<Rightarrow> string" where
  "render_piece (Lit s) = s"
| "render_piece (Hole n) = ''{{'' @ n @ ''}}''"

definition render :: "piece list \<Rightarrow> string" where
  "render ps = concat (map render_piece ps)"

fun filled_piece :: "story \<Rightarrow> piece \<Rightarrow> string" where
  "filled_piece story (Lit s) = s"
| "filled_piece story (Hole n) =
     (case map_of story n of Some (JStr v) \<Rightarrow> v | _ \<Rightarrow> ''{{'' @ n @ ''}}'')"

definition filled :: "story \<Rightarrow> piece list \<Rightarrow> string" where
  "filled story ps = concat (map (filled_piece story) ps)"

definition brace_free :: "string \<Rightarrow> bool" where
  "brace_free s = (CHR ''{'' \<notin> set s \<and> CHR ''}'' \<notin> set s)"

fun plain :: "string \<Rightarrow> bool" where
  "plain [] = True"
| "plain [c] = (c \<noteq> CHR ''{'')"
| "plain (c # d # cs) = (\<not> (c = CHR ''{'' \<and> d = CHR ''{'') \<and> plain (d # cs))"

fun well_formed :: "piece \<Rightarrow> bool" where
  "well_formed (Lit s) = plain s"
| "well_formed (Hole n) = brace_free n"

fun fits :: "string \<times> json \<Rightarrow> bool" where
  "fits (k, JStr v) = (brace_free k \<and> plain v)"
| "fits (k, other) = False"

text \<open>The pieces after the field \<open>k\<close> has been put in.\<close>

fun subst :: "string \<Rightarrow> string \<Rightarrow> piece \<Rightarrow> piece" where
  "subst k v (Lit s) = Lit s"
| "subst k v (Hole n) = (if n = k then Lit v else Hole n)"

text \<open>A template with a style rule, known fields and an unknown one.\<close>

definition demo_pieces :: "piece list" where
  "demo_pieces =
     [Lit ''<style>h1{color:red}</style><h1>'', Hole ''storytitle'', Lit ''</h1><p>'',
      Hole ''s2paragraph1'', Lit ''</p>'', Hole ''unknown_field'', Hole ''storytitle'']"

subsection \<open>Notions for the growth of the record\<close>

text \<open>
  The fields that the image pipeline and the narration pipeline write. A record grows to
  another over a set of fields when its keys are the first keys of the other in the same
  order, every key outside the set keeps its value, and every entry of the other is an
  entry of the first or a string under a key of the set.
\<close>

definition is_str :: "json \<Rightarrow> bool" where
  "is_str v = (case v of JStr s \<Rightarrow> True | _ \<Rightarrow> False)"

definition image_outputs :: "string set" where
  "image_outputs = {''s1image1'', ''s2image1'', ''s3image1'', ''s4image1'', ''s5image1'', ''s6image1'', ''portraitcoverurl''}"

definition audio_outputs :: "string set" where
  "audio_outputs = {''s1audio1'', ''s2audio1'', ''s3audio1'', ''s4audio1'', ''s5audio1'', ''s6audio1''}"

definition grows :: "string set \<Rightarrow> story \<Rightarrow> story \<Rightarrow> bool" where
  "grows W story story' \<longleftrightarrow>
     prefix (map fst story) (map fst story')
     \<and> (\<forall>k. k \<notin> W \<longrightarrow> map_of story' k = map_of story k)
     \<and> (\<forall>k v. map_of story' k = Some v \<longrightarrow> map_of story k = Some v \<or> (k \<in> W \<and> is_str v))"

text \<open>A world whose chat model answers with an object that carries a new title and a list
  of keywords.\<close>

definition unruly_fields :: "(string \<times> json) list" where
  "unruly_fields =
     [(''storytitle'', JStr ''Changed''), (''metakeywords'', JArr [JStr ''a'', JStr ''b''])]"

definition unruly_services :: "string services" where
  "unruly_services = demo_services\<lparr>loads := (\<lambda>s. Some (JObj unruly_fields))\<rparr>"

text \<open>The fields of the default metadata, and the records that the stages return in the
  world where the image request of slide 3 fails.\<close>

definition seo_default_fields :: "(string \<times> json) list" where
  "seo_default_fields = [(''metadescription'', JStr []), (''metakeywords'', JStr [])]"

definition demo_illustrated :: story where
  "demo_illustrated = projr (snd (image_pipeline AppSingle demo_config failing_services demo_story))"

definition demo_narrated :: story where
  "demo_narrated = projr (snd (synthesize_and_upload_audio demo_config failing_services demo_story))"

definition demo_narrated_app :: "story \<times> story" where
  "demo_narrated_app = projr (snd (synthesize_audio demo_config failing_services demo_story))"

section \<open>Properties\<close>

subsection \<open>Monad laws used below\<close>

lemma bind_io_Inl [simp]: "bind_io (es, Inl e) f = (es, Inl e)"
  by (simp add: bind_io_def)

lemma bind_io_Inr [simp]: "bind_io (es, Inr x) f = (es @ fst (f x), snd (f x))"
  by (simp add: bind_io_def split: prod.splits)

lemma bind_exn_Inl [simp]: "bind_exn (Inl e) f = Inl e"
  by (simp add: bind_exn_def)

lemma bind_exn_Inr [simp]: "bind_exn (Inr x) f = f x"
  by (simp add: bind_exn_def)

lemma try_except_Inl [simp]: "try_except (es, Inl e) h = (es @ fst (h e), snd (h e))"
  by (simp add: try_except_def split: prod.splits)

lemma try_except_Inr [simp]: "try_except (es, Inr x) h = (es, Inr x)"
  by (simp add: try_except_def)

subsection \<open>Replacing one character\<close>

lemma replace_single: "replace [a] [b] s = map (\<lambda>c. if c = a then b else c) s"
  by (induction s) auto

lemma replace_delete: "replace [a] [] s = filter (\<lambda>c. c \<noteq> a) s"
  by (induction s) auto

subsection \<open>The slug\<close>

text \<open>
  C6. The slug is the title lower-cased with every space turned into a hyphen; app-single.py
  (variant 1) also drops every colon. For the title "The Solar System: An Overview" the slug
  is "the-solar-system-an-overview" in variant 1 and "the-solar-system:-an-overview" in
  variant 2.
\<close>

theorem slug_derivation:
  "slug_of_title App title = map (\<lambda>c. if c = CHR '' '' then CHR ''-'' else c) (lower title)
   \<and> slug_of_title AppSingle title = filter (\<lambda>c. c \<noteq> CHR '':'') (slug_of_title App title)
   \<and> slug AppSingle [(''storytitle'', JStr ''The Solar System: An Overview'')]
       = Inr ''the-solar-system-an-overview''
   \<and> slug App [(''storytitle'', JStr ''The Solar System: An Overview'')]
       = Inr ''the-solar-system:-an-overview''"
proof -
  have a: "slug_of_title App title
      = map (\<lambda>c. if c = CHR '' '' then CHR ''-'' else c) (lower title)"
    by (simp add: slug_of_title_def replace_single)
  have b: "slug_of_title AppSingle title
      = filter (\<lambda>c. c \<noteq> CHR '':'') (slug_of_title App title)"
    by (simp add: slug_of_title_def replace_delete)
  have c: "slug AppSingle [(''storytitle'', JStr ''The Solar System: An Overview'')]
       = Inr ''the-solar-system-an-overview''"
    by code_simp
  have d: "slug App [(''storytitle'', JStr ''The Solar System: An Overview'')]
       = Inr ''the-solar-system:-an-overview''"
    by code_simp
  from a b c d show ?thesis by blast
qed

subsection \<open>Searching the fenced block\<close>

lemma prefix_drop: "prefix p s \<Longrightarrow> p @ drop (length p) s = s"
  by (auto simp: prefix_def)

lemma find_first_SomeD: "find_first pat s = Some (b, a) \<Longrightarrow> s = b @ pat @ a"
proof (induction s arbitrary: b)
  case Nil
  then show ?case by (simp split: if_splits)
next
  case (Cons c cs)
  show ?case
  proof (cases "prefix pat (c # cs)")
    case True
    with Cons.prems have "b = []" and "a = drop (length pat) (c # cs)" by auto
    with prefix_drop [OF True] show ?thesis by simp
  next
    case False
    with Cons.prems obtain b0 where "find_first pat cs = Some (b0, a)" and "b = c # b0"
      by auto
    with Cons.IH show ?thesis by simp
  qed
qed

lemma find_first_min:
  "find_first pat s = Some (b, a) \<Longrightarrow> s = b' @ pat @ a' \<Longrightarrow> length b \<le> length b'"
proof (induction s arbitrary: b b')
  case Nil
  then show ?case by (simp split: if_splits)
next
  case (Cons c cs)
  show ?case
  proof (cases "prefix pat (c # cs)")
    case True
    with Cons.prems(1) show ?thesis by simp
  next
    case False
    with Cons.prems(1) obtain b0 where f: "find_first pat cs = Some (b0, a)" and b: "b = c # b0"
      by auto
    from False Cons.prems(2) have "b' \<noteq> []" by (auto simp: prefix_def)
    with Cons.prems(2) obtain b'' where "b' = c # b''" and "cs = b'' @ pat @ a'"
      by (cases b') auto
    with Cons.IH [OF f] b show ?thesis by simp
  qed
qed

lemma find_first_NoneD: "find_first pat s = None \<Longrightarrow> s \<noteq> b @ pat @ a"
proof (induction s arbitrary: b)
  case Nil
  then show ?case by (simp split: if_splits)
next
  case (Cons c cs)
  from Cons.prems have np: "\<not> prefix pat (c # cs)" and f: "find_first pat cs = None"
    by (auto split: if_splits)
  show ?case
  proof
    assume eq: "c # cs = b @ pat @ a"
    with np have "b \<noteq> []" by (auto simp: prefix_def)
    with eq obtain b0 where "cs = b0 @ pat @ a" by (cases b) auto
    with Cons.IH [OF f] show False by blast
  qed
qed

lemma re_search_SomeD:
  "re_search_fence s = Some body \<Longrightarrow> \<exists>pre post. s = fenced pre body post"
proof (induction s)
  case Nil
  then show ?case by simp
next
  case (Cons c cs)
  show ?case
  proof (cases "prefix fence_open (c # cs)")
    case True
    show ?thesis
    proof (cases "find_first fence_close (drop (length fence_open) (c # cs))")
      case None
      with True Cons.prems have "re_search_fence cs = Some body" by simp
      from Cons.IH [OF this] obtain pre post where "cs = fenced pre body post" by blast
      then have "c # cs = fenced (c # pre) body post" by (simp add: fenced_def)
      then show ?thesis by blast
    next
      case (Some p)
      obtain b a where p: "p = (b, a)" by (cases p)
      with Some True Cons.prems have "b = body" by simp
      with Some p have "drop (length fence_open) (c # cs) = body @ fence_close @ a"
        using find_first_SomeD by blast
      with prefix_drop [OF True] have "c # cs = fenced [] body a"
        by (simp add: fenced_def)
      then show ?thesis by blast
    qed
  next
    case False
    with Cons.prems have "re_search_fence cs = Some body" by simp
    from Cons.IH [OF this] obtain pre post where "cs = fenced pre body post" by blast
    then have "c # cs = fenced (c # pre) body post" by (simp add: fenced_def)
    then show ?thesis by blast
  qed
qed

lemma re_search_NoneD:
  "re_search_fence s = None \<Longrightarrow> s \<noteq> fenced pre body post"
proof (induction s arbitrary: pre)
  case Nil
  then show ?case by (simp add: fenced_def fence_open_def)
next
  case (Cons c cs)
  show ?case
  proof
    assume eq: "c # cs = fenced pre body post"
    show False
    proof (cases pre)
      case Nil
      with eq have pf: "prefix fence_open (c # cs)"
        and d: "drop (length fence_open) (c # cs) = body @ fence_close @ post"
        by (simp_all add: fenced_def)
      with Cons.prems have "find_first fence_close (body @ fence_close @ post) = None"
        by (simp split: option.splits prod.splits)
      with find_first_NoneD show False by blast
    next
      case (Cons p ps)
      with eq have "cs = fenced ps body post" by (simp add: fenced_def)
      moreover from Cons.prems have "re_search_fence cs = None"
        by (simp split: if_splits option.splits prod.splits)
      ultimately show False using Cons.IH by blast
    qed
  qed
qed

lemma re_search_first:
  "re_search_fence s = Some body \<Longrightarrow>
     \<exists>pre post. s = fenced pre body post \<and>
       (\<forall>pre' body' post'. s = fenced pre' body' post' \<longrightarrow>
          length pre \<le> length pre' \<and> (length pre' = length pre \<longrightarrow> length body \<le> length body'))"
proof (induction s)
  case Nil
  then show ?case by simp
next
  case (Cons c cs)
  let ?rest = "drop (length fence_open) (c # cs)"
  show ?case
  proof (cases "prefix fence_open (c # cs) \<and> find_first fence_close ?rest \<noteq> None")
    case True
    then obtain b a where f: "find_first fence_close ?rest = Some (b, a)" by auto
    with True Cons.prems have b: "b = body" by simp
    from f b have r: "?rest = body @ fence_close @ a"
      using find_first_SomeD by blast
    with True prefix_drop [of fence_open "c # cs"] have eq: "c # cs = fenced [] body a"
      by (simp add: fenced_def)
    have "length body \<le> length body'" if "c # cs = fenced [] body' post'" for body' post'
    proof -
      from that True prefix_drop [of fence_open "c # cs"]
      have "?rest = body' @ fence_close @ post'" by (simp add: fenced_def)
      with f b show ?thesis using find_first_min by blast
    qed
    with eq show ?thesis by (intro exI [of _ "[]"] exI [of _ a]) auto
  next
    case False
    with Cons.prems have rs: "re_search_fence cs = Some body"
      by (auto split: option.splits prod.splits)
    from Cons.IH [OF rs] obtain pre post where eq: "cs = fenced pre body post"
      and mn: "\<And>pre' body' post'. cs = fenced pre' body' post' \<Longrightarrow>
          length pre \<le> length pre' \<and> (length pre' = length pre \<longrightarrow> length body \<le> length body')"
      by blast
    have "length (c # pre) \<le> length pre' \<and>
          (length pre' = length (c # pre) \<longrightarrow> length body \<le> length body')"
      if d: "c # cs = fenced pre' body' post'" for pre' body' post'
    proof (cases pre')
      case Nil
      with d have pf: "prefix fence_open (c # cs)"
        and r: "?rest = body' @ fence_close @ post'" by (simp_all add: fenced_def)
      from pf False have "find_first fence_close ?rest = None" by blast
      with r have "find_first fence_close (body' @ fence_close @ post') = None"
        by (simp only:)
      with find_first_NoneD have False by blast
      then show ?thesis ..
    next
      case (Cons p ps)
      with d have "cs = fenced ps body' post'" by (simp add: fenced_def)
      from mn [OF this] Cons show ?thesis by simp
    qed
    moreover from eq have "c # cs = fenced (c # pre) body post" by (simp add: fenced_def)
    ultimately show ?thesis by blast
  qed
qed

lemma seo_raw_fenced:
  assumes "content = fenced pre0 body0 post0"
  shows "\<exists>pre body post. content = fenced pre body post \<and> seo_raw content = strip body \<and>
       (\<forall>pre' body' post'. content = fenced pre' body' post' \<longrightarrow>
          length pre \<le> length pre' \<and> (length pre' = length pre \<longrightarrow> length body \<le> length body'))"
proof (cases "re_search_fence content")
  case None
  with re_search_NoneD assms show ?thesis by blast
next
  case (Some body)
  from re_search_first [OF Some] obtain pre post where "content = fenced pre body post"
    and "\<forall>pre' body' post'. content = fenced pre' body' post' \<longrightarrow>
          length pre \<le> length pre' \<and> (length pre' = length pre \<longrightarrow> length body \<le> length body')"
    by blast
  moreover from Some have "seo_raw content = strip body" by (simp add: seo_raw_def)
  ultimately show ?thesis by blast
qed

lemma seo_raw_unfenced:
  assumes "\<nexists>pre body post. content = fenced pre body post"
  shows "seo_raw content = strip content"
proof (cases "re_search_fence content")
  case None
  then show ?thesis by (simp add: seo_raw_def)
next
  case (Some body)
  with re_search_SomeD assms show ?thesis by blast
qed

subsection \<open>generate_seo\<close>

lemma traverse_Inl:
  "x \<in> set xs \<Longrightarrow> f x = Inl e0 \<Longrightarrow> \<exists>x' e. x' \<in> set xs \<and> f x' = Inl e \<and> traverse f xs = Inl e"
proof (induction xs)
  case Nil
  then show ?case by simp
next
  case (Cons a xs)
  show ?case
  proof (cases "f a")
    case (Inl e)
    then show ?thesis by auto
  next
    case (Inr y)
    with Cons.prems have "x \<in> set xs" by auto
    from Cons.IH [OF this Cons.prems(2)] obtain x' e
      where "x' \<in> set xs" "f x' = Inl e" "traverse f xs = Inl e" by blast
    with Inr show ?thesis by auto
  qed
qed

lemma formatted_Inl:
  "formatted srv story k = Inl e \<longleftrightarrow> map_of story k = None \<and> e = Exn KeyError (repr k)"
  by (auto simp: formatted_def getitem_def split: option.splits)

lemma seo_prompt_missing:
  assumes "k \<in> set seo_keys" and "map_of story k = None"
  shows "\<exists>k'. k' \<in> set seo_keys \<and> map_of story k' = None
            \<and> seo_prompt var srv story = Inl (Exn KeyError (repr k'))"
proof -
  let ?f = "\<lambda>i. formatted srv story (paragraph_key i)"
  let ?t = "formatted srv story ''storytitle''"
  have title: "''storytitle'' \<in> set seo_keys" by (simp add: seo_keys_def)
  have para: "paragraph_key i \<in> set seo_keys" if "i \<in> set [2..<7]" for i
    using that by (auto simp: seo_keys_def)
  have tr: "\<exists>k'. k' \<in> set seo_keys \<and> map_of story k' = None
            \<and> traverse ?f [2..<7] = Inl (Exn KeyError (repr k'))"
    if "k \<noteq> ''storytitle''"
  proof -
    from that assms(1) obtain i where i: "i \<in> set [2..<7]" and k: "k = paragraph_key i"
      by (auto simp: seo_keys_def)
    from assms(2) k have "?f i = Inl (Exn KeyError (repr k))" by (simp add: formatted_Inl)
    from traverse_Inl [of i "[2..<7]" ?f, OF i this] obtain i' e
      where "i' \<in> set [2..<7]" "?f i' = Inl e" "traverse ?f [2..<7] = Inl e" by blast
    with para [of i'] show ?thesis by (simp only: formatted_Inl) blast
  qed
  have tl: "?t = Inl (Exn KeyError (repr ''storytitle''))" if "map_of story ''storytitle'' = None"
    using that by (simp add: formatted_Inl)
  show ?thesis
  proof (cases var)
    case App
    show ?thesis
    proof (cases "traverse ?f [2..<7]")
      case (Inl e)
      show ?thesis
      proof (cases "k = ''storytitle''")
        case False
        from tr [OF False] App show ?thesis by (auto simp: seo_prompt_def)
      next
        case True
        have "\<exists>i. i \<in> set [2..<7] \<and> ?f i = Inl e"
          using Inl
          by (auto split: sum.splits)
        then obtain i where "i \<in> set [2..<7]" "?f i = Inl e" by blast
        with para [of i] have "paragraph_key i \<in> set seo_keys \<and> map_of story (paragraph_key i) = None
            \<and> e = Exn KeyError (repr (paragraph_key i))" by (simp add: formatted_Inl)
        with Inl App show ?thesis by (auto simp: seo_prompt_def)
      qed
    next
      case (Inr ps)
      have "k = ''storytitle''"
      proof (rule ccontr)
        assume "k \<noteq> ''storytitle''"
        from tr [OF this] Inr show False by simp
      qed
      with assms(2) tl Inr App title show ?thesis by (auto simp: seo_prompt_def)
    qed
  next
    case AppSingle
    show ?thesis
    proof (cases "map_of story ''storytitle''")
      case None
      with tl AppSingle title show ?thesis by (auto simp: seo_prompt_def)
    next
      case (Some v)
      with assms(2) have "k \<noteq> ''storytitle''" by auto
      from tr [OF this] Some AppSingle show ?thesis
        by (auto simp: seo_prompt_def formatted_def getitem_def)
    qed
  qed
qed

text \<open>
  C9. The graceful degradation of generate_seo covers the parsing of the answer only: when
  the record lacks storytitle or one of s2paragraph1 ... s6paragraph1, building the prompt
  raises KeyError for a lacking field, no request has been sent and no warning shown, and
  the default metadata is not returned. This holds in both variants and in every world.
\<close>

theorem seo_missing_field_raises:
  assumes "k \<in> set seo_keys" and "map_of story k = None"
  shows "\<exists>k'. k' \<in> set seo_keys \<and> map_of story k' = None
            \<and> generate_seo var srv story = ([], Inl (Exn KeyError (repr k')))"
proof -
  from seo_prompt_missing [OF assms] obtain k' where "k' \<in> set seo_keys"
    and "map_of story k' = None"
    and "seo_prompt var srv story = Inl (Exn KeyError (repr k'))" by blast
  then show ?thesis by (auto simp: generate_seo_def lift_def)
qed

theorem seo_missing_field_raises_witness:
  "\<exists>k'. k' \<in> set seo_keys \<and> map_of (take 3 demo_story) k' = None
      \<and> generate_seo App demo_services (take 3 demo_story) = ([], Inl (Exn KeyError (repr k')))"
proof -
  have a: "''s5paragraph1'' \<in> set seo_keys" by code_simp
  have b: "map_of (take 3 demo_story) ''s5paragraph1'' = None" by code_simp
  from seo_missing_field_raises [OF a b] show ?thesis .
qed

text \<open>
  C2. When the chat model has answered and \<^verbatim>\<open>json.loads\<close> rejects the extracted text,
  generate_seo does not raise: after its one request it shows the warning and returns
  exactly the record with an empty metadescription and empty metakeywords, in both variants.
\<close>

theorem seo_parse_failure_default:
  assumes "seo_prompt var srv story = Inr prompt"
    and "chat_completion srv seo_system prompt 300 = Inr content"
    and "loads srv (seo_raw content) = None"
  shows "generate_seo var srv story
       = ([ChatRequest seo_system prompt, Warning (seo_warning var)],
          Inr (JObj [(''metadescription'', JStr []), (''metakeywords'', JStr [])]))"
  using assms
  by (simp add: generate_seo_def lift_def call_def emit_def ret_def seo_default_def)

theorem seo_parse_failure_default_witness:
  "generate_seo AppSingle silent_services demo_story
       = ([ChatRequest seo_system (projr (seo_prompt AppSingle silent_services demo_story)),
           Warning (seo_warning AppSingle)],
          Inr (JObj [(''metadescription'', JStr []), (''metakeywords'', JStr [])]))"
proof -
  have a: "seo_prompt AppSingle silent_services demo_story
             = Inr (projr (seo_prompt AppSingle silent_services demo_story))"
    by code_simp
  have b: "chat_completion silent_services seo_system
             (projr (seo_prompt AppSingle silent_services demo_story)) 300
           = Inr ''Sorry, no JSON today.''"
    by (simp add: silent_services_def)
  have c: "loads silent_services (seo_raw ''Sorry, no JSON today.'') = None"
    by code_simp
  from seo_parse_failure_default [OF a b c] show ?thesis .
qed

text \<open>
  C5. The parsing policy of generate_seo. If the answer holds a fenced block (the
  case-sensitive opening fence, any content, line breaks included, the closing fence), the
  text handed to the JSON decoder is the stripped content of the first such block: the
  leftmost opening fence that is closed, up to the nearest closing fence. If the answer
  holds no fenced block, the whole stripped answer is decoded. What the decoder returns is
  the result. For the answer of the specification's example the decoded text is the JSON
  object between the fences.
\<close>

theorem seo_parsing_policy:
  \<open>((\<exists>pre body post. content = fenced pre body post) \<longrightarrow>
      (\<exists>pre body post. content = fenced pre body post \<and> seo_raw content = strip body \<and>
         (\<forall>pre' body' post'. content = fenced pre' body' post' \<longrightarrow>
            length pre \<le> length pre' \<and>
            (length pre' = length pre \<longrightarrow> length body \<le> length body'))))
   \<and> ((\<nexists>pre body post. content = fenced pre body post) \<longrightarrow> seo_raw content = strip content)
   \<and> (seo_prompt var srv story = Inr prompt
        \<and> chat_completion srv seo_system prompt 300 = Inr content
        \<and> loads srv (seo_raw content) = Some v
       \<longrightarrow> generate_seo var srv story = ([ChatRequest seo_system prompt], Inr v))
   \<and> seo_raw ''noise ```json\<newline>{"metadescription":"d","metakeywords":"k"}\<newline>``` trailing''
        = ''{"metadescription":"d","metakeywords":"k"}''\<close>
proof -
  have a: "(\<exists>pre body post. content = fenced pre body post) \<longrightarrow>
      (\<exists>pre body post. content = fenced pre body post \<and> seo_raw content = strip body \<and>
         (\<forall>pre' body' post'. content = fenced pre' body' post' \<longrightarrow>
            length pre \<le> length pre' \<and>
            (length pre' = length pre \<longrightarrow> length body \<le> length body')))"
    using seo_raw_fenced by blast
  have b: "(\<nexists>pre body post. content = fenced pre body post) \<longrightarrow> seo_raw content = strip content"
    using seo_raw_unfenced by blast
  have c: "seo_prompt var srv story = Inr prompt
        \<and> chat_completion srv seo_system prompt 300 = Inr content
        \<and> loads srv (seo_raw content) = Some v
       \<longrightarrow> generate_seo var srv story = ([ChatRequest seo_system prompt], Inr v)"
    by (simp add: generate_seo_def lift_def call_def ret_def)
  have d: \<open>seo_raw ''noise ```json\<newline>{"metadescription":"d","metakeywords":"k"}\<newline>``` trailing''
        = ''{"metadescription":"d","metakeywords":"k"}''\<close>
    by code_simp
  from a b c d show ?thesis by (intro conjI)
qed

theorem seo_parsing_policy_witness:
  "generate_seo App demo_services demo_story
     = ([ChatRequest seo_system (projr (seo_prompt App demo_services demo_story))],
        Inr (JObj [(''metadescription'', JStr ''d''), (''metakeywords'', JStr ''k'')]))"
proof -
  have a: "seo_prompt App demo_services demo_story
             = Inr (projr (seo_prompt App demo_services demo_story))"
    by code_simp
  have b: "chat_completion demo_services seo_system
             (projr (seo_prompt App demo_services demo_story)) 300 = Inr example_response"
    by (simp add: demo_services_def)
  have c: "loads demo_services (seo_raw example_response)
             = Some (JObj [(''metadescription'', JStr ''d''), (''metakeywords'', JStr ''k'')])"
    by code_simp
  from seo_parsing_policy [of example_response App demo_services demo_story
      "projr (seo_prompt App demo_services demo_story)"
      "JObj [(''metadescription'', JStr ''d''), (''metakeywords'', JStr ''k'')]"] a b c
  show ?thesis by blast
qed

subsection \<open>The image loop\<close>

lemma fst_bind_io:
  "fst (bind_io m f) = (case snd m of Inl e \<Rightarrow> fst m | Inr x \<Rightarrow> fst m @ fst (f x))"
  by (cases m) (auto simp: bind_io_def split: sum.splits prod.splits)

lemma snd_bind_io:
  "snd (bind_io m f) = (case snd m of Inl e \<Rightarrow> Inl e | Inr x \<Rightarrow> snd (f x))"
  by (cases m) (auto simp: bind_io_def split: sum.splits prod.splits)

lemma bind_io_assoc: "bind_io (bind_io m f) g = bind_io m (\<lambda>x. bind_io (f x) g)"
  by (cases m) (auto simp: bind_io_def split: sum.splits prod.splits)

lemma bind_io_ret [simp]: "bind_io (ret x) f = f x"
  by (simp add: ret_def)

lemma image_key_neq_alt_key: "image_key j \<noteq> alt_key i"
proof
  assume "image_key j = alt_key i"
  then have "rev (str_nat j @ ''image1'') = rev (str_nat i @ ''alt1'')"
    by (simp add: image_key_def alt_key_def)
  then show False by simp
qed

lemma map_of_dict_set: "map_of (dict_set d k v) = (map_of d)(k \<mapsto> v)"
  by (simp add: dict_set_def update_conv')

lemma get_default_dict_set:
  "k \<noteq> k' \<Longrightarrow> get_default (dict_set d k v) k' dflt = get_default d k' dflt"
  by (simp add: get_default_def map_of_dict_set)

text \<open>A pass of the loop body depends on the record only through the prompt of its slide.\<close>

lemma slide_step_cong:
  assumes "slide_prompt st i = slide_prompt story i"
  shows "fst (slide_step var cfg srv slg st i) = fst (slide_step var cfg srv slg story i)"
    and "snd (slide_step var cfg srv slg st i)
       = (case snd (slide_step var cfg srv slg story i) of
            Inl e \<Rightarrow> Inl e
          | Inr r \<Rightarrow> Inr (dict_set st (image_key i) (slide_url var cfg slg i), snd r))"
  using assms
  by (auto simp: slide_step_def slide_prompt_def slide_url_def fst_bind_io snd_bind_io ret_def
           split: sum.splits)

lemma image_loop_ok:
  assumes "\<forall>j\<in>set js. succeeds (slide_step var cfg srv slg story j)"
    and "\<forall>i. slide_prompt st i = slide_prompt story i"
  shows "image_loop var cfg srv slg js (st, lst) =
          (concat (map (\<lambda>j. fst (slide_step var cfg srv slg story j)) js),
           Inr (foldl (\<lambda>s j. dict_set s (image_key j) (slide_url var cfg slg j)) st js,
                foldl (\<lambda>l j. Some (step_image var cfg srv slg story j)) lst js))"
  using assms
proof (induction js arbitrary: st lst)
  case Nil
  then show ?case by (simp add: ret_def)
next
  case (Cons j js)
  let ?m = "slide_step var cfg srv slg st j"
  let ?st' = "dict_set st (image_key j) (slide_url var cfg slg j)"
  from Cons.prems(1) obtain r where r: "snd (slide_step var cfg srv slg story j) = Inr r"
    by (auto simp: succeeds_def split: sum.splits)
  from Cons.prems(2) have p: "slide_prompt st j = slide_prompt story j" by blast
  have m: "?m = (fst (slide_step var cfg srv slg story j), Inr (?st', snd r))"
    using slide_step_cong [OF p, of var cfg srv slg] r by (simp add: prod_eq_iff)
  have agree: "\<forall>i. slide_prompt ?st' i = slide_prompt story i"
    using Cons.prems(2) by (simp add: slide_prompt_def get_default_dict_set image_key_neq_alt_key)
  from Cons.prems(1) have rest: "\<forall>j\<in>set js. succeeds (slide_step var cfg srv slg story j)"
    by simp
  have img: "step_image var cfg srv slg story j = snd r"
    by (simp add: step_image_def r)
  show ?case
    by (simp add: m Cons.IH [OF rest agree] img)
qed

lemma fst_generated_image: "filter is_error (fst (generated_image srv i p)) = []"
  by (auto simp: generated_image_def fst_bind_io call_def lift_def is_error_def split: sum.splits)

lemma fst_fallback_image:
  "fst (fallback_image var cfg srv i e)
     = [Error (image_error var i e), FetchFallback (DEFAULT_ERROR_IMAGE cfg)]"
  by (auto simp: fallback_image_def fst_bind_io snd_bind_io call_def lift_def emit_def
           split: sum.splits)

lemma snd_fallback_image:
  "snd (fallback_image var cfg srv i e)
     = bind_exn (http_get_raw srv i (DEFAULT_ERROR_IMAGE cfg)) (\<lambda>raw.
       bind_exn (image_open srv raw) (normalize srv))"
  by (auto simp: fallback_image_def snd_bind_io call_def lift_def emit_def bind_exn_def
           split: sum.splits)

lemma fst_publish:
  "fst (publish cfg srv img key)
     = (case save_jpeg srv img of Inl e \<Rightarrow> [] | Inr buf \<Rightarrow> [Upload key buf])"
  by (auto simp: publish_def fst_bind_io call_def lift_def split: sum.splits)

lemma snd_publish:
  "snd (publish cfg srv img key)
     = bind_exn (save_jpeg srv img) (\<lambda>buf. upload_fileobj srv buf (AWS_BUCKET cfg) key)"
  by (auto simp: publish_def snd_bind_io call_def lift_def bind_exn_def split: sum.splits)

lemma errors_publish: "filter is_error (fst (publish cfg srv img key)) = []"
  by (simp add: fst_publish is_error_def split: sum.splits)

lemma fst_slide_image:
  "fst (slide_image var cfg srv i p)
     = fst (generated_image srv i p)
       @ (case snd (generated_image srv i p) of
            Inl e \<Rightarrow> fst (fallback_image var cfg srv i e) | Inr img \<Rightarrow> [])"
  by (cases "generated_image srv i p") (auto simp: slide_image_def split: sum.splits)

lemma snd_slide_image:
  "snd (slide_image var cfg srv i p)
     = (case snd (generated_image srv i p) of
          Inl e \<Rightarrow> snd (fallback_image var cfg srv i e) | Inr img \<Rightarrow> Inr img)"
  by (cases "generated_image srv i p") (auto simp: slide_image_def split: sum.splits)

lemma snd_generated_image: "snd (generated_image srv i p) = generated_picture srv i p"
  by (auto simp: generated_image_def generated_picture_def normalize_def snd_bind_io call_def
        lift_def bind_exn_def split: sum.splits)

lemma errors_slide_step:
  "filter is_error (fst (slide_step var cfg srv slg story j))
     = (case generation_error srv story j of
          Some e \<Rightarrow> [Error (image_error var j e)] | None \<Rightarrow> [])"
  by (auto simp: slide_step_def fst_bind_io fst_slide_image fst_generated_image
                 fst_fallback_image errors_publish generation_error_def slide_prompt_def
                 is_error_def ret_def snd_generated_image [symmetric]
           split: sum.splits)

lemma concat_map_option:
  "concat (map (\<lambda>j. case g j of Some e \<Rightarrow> [h j e] | None \<Rightarrow> []) js)
     = map (\<lambda>j. h j (the (g j))) (filter (\<lambda>j. g j \<noteq> None) js)"
  by (induction js) (auto split: option.splits)

lemma errors_loop:
  "filter is_error (concat (map (\<lambda>j. fst (slide_step var cfg srv slg story j)) js))
     = map (\<lambda>j. Error (image_error var j (the (generation_error srv story j))))
         (filter (\<lambda>j. generation_error srv story j \<noteq> None) js)"
proof -
  have "filter is_error (concat (map (\<lambda>j. fst (slide_step var cfg srv slg story j)) js))
      = concat (map (\<lambda>j. case generation_error srv story j of
                          Some e \<Rightarrow> [Error (image_error var j e)] | None \<Rightarrow> []) js)"
    by (simp add: filter_concat comp_def errors_slide_step)
  then show ?thesis by (simp add: concat_map_option)
qed

lemma slides: "[1..<7] = [1, 2, 3, 4, 5, 6]"
  by code_simp

lemma image_keys:
  "image_key 1 = ''s1image1''" "image_key 2 = ''s2image1''" "image_key 3 = ''s3image1''"
  "image_key 4 = ''s4image1''" "image_key 5 = ''s5image1''" "image_key 6 = ''s6image1''"
  "image_key (Suc 0) = ''s1image1''"
  by code_simp+

lemma image_fields_recorded:
  assumes "j \<in> set [1..<7]"
  shows "map_of (foldl (\<lambda>s j. dict_set s (image_key j) (f j)) st [1..<7]) (image_key j)
           = Some (f j)"
proof -
  from assms have "j = 1 \<or> j = 2 \<or> j = 3 \<or> j = 4 \<or> j = 5 \<or> j = 6"
    unfolding slides by simp
  then show ?thesis
    unfolding slides by (elim disjE) (simp_all add: map_of_dict_set image_keys)
qed

lemma bind_io_lift_Inr: "bind_io (lift (Inr x)) f = f x"
  by (simp add: lift_def)

lemma succeedsD: "succeeds m \<Longrightarrow> \<exists>x. snd m = Inr x"
  by (auto simp: succeeds_def split: sum.splits)

lemma last_image: "foldl (\<lambda>l j. Some (f j)) lst [1..<7] = Some (f 6)"
  unfolding slides by simp

lemma image_loop_all:
  assumes "\<forall>j\<in>set [1..<7]. succeeds (slide_step var cfg srv slg story j)"
  shows "image_loop var cfg srv slg [1..<7] (story, None)
       = (loop_events var cfg srv slg story,
          Inr (recorded var cfg slg story, Some (step_image var cfg srv slg story 6)))"
proof -
  have "image_loop var cfg srv slg [1..<7] (story, None) =
          (concat (map (\<lambda>j. fst (slide_step var cfg srv slg story j)) [1..<7]),
           Inr (foldl (\<lambda>s j. dict_set s (image_key j) (slide_url var cfg slg j)) story [1..<7],
                foldl (\<lambda>l j. Some (step_image var cfg srv slg story j)) None [1..<7]))"
    using assms by (intro image_loop_ok) simp_all
  then show ?thesis
    by (simp only: last_image recorded_def loop_events_def)
qed

lemma generate_images_ok:
  assumes "slug App story = Inr slg"
    and "\<forall>j\<in>set [1..<7]. succeeds (slide_step App cfg srv slg story j)"
  shows "generate_images cfg srv story
       = (loop_events App cfg srv slg story, Inr (recorded App cfg slg story))"
proof -
  have "generate_images cfg srv story
      = bind_io (image_loop App cfg srv slg [1..<7] (story, None))
          (\<lambda>(story', last_img). ret story')"
    by (simp only: generate_images_def assms(1) bind_io_lift_Inr)
  also have "\<dots> = (loop_events App cfg srv slg story, Inr (recorded App cfg slg story))"
    by (simp only: image_loop_all [OF assms(2)]) (simp add: ret_def)
  finally show ?thesis .
qed

lemma generate_images_and_upload_ok:
  assumes "slug AppSingle story = Inr slg"
    and "\<forall>j\<in>set [1..<7]. succeeds (slide_step AppSingle cfg srv slg story j)"
    and "succeeds (publish cfg srv (step_image AppSingle cfg srv slg story 6)
           (cover_object_key cfg slg))"
  shows "generate_images_and_upload cfg srv story
       = (loop_events AppSingle cfg srv slg story
            @ fst (publish cfg srv (step_image AppSingle cfg srv slg story 6)
                     (cover_object_key cfg slg)),
          Inr (dict_set (recorded AppSingle cfg slg story) ''portraitcoverurl''
                 (JStr (cdn_url AppSingle cfg (cover_object_key cfg slg)))))"
proof -
  let ?p = "publish cfg srv (step_image AppSingle cfg srv slg story 6) (cover_object_key cfg slg)"
  from succeedsD [OF assms(3)] have "snd ?p = Inr ()" by simp
  then have p: "?p = (fst ?p, Inr ())" by (simp add: prod_eq_iff)
  have "bind_io ?p (\<lambda>_. ret (dict_set (recorded AppSingle cfg slg story) ''portraitcoverurl''
                 (JStr (cdn_url AppSingle cfg (cover_object_key cfg slg)))))
        = (fst ?p, Inr (dict_set (recorded AppSingle cfg slg story) ''portraitcoverurl''
                 (JStr (cdn_url AppSingle cfg (cover_object_key cfg slg)))))"
    by (subst p) (simp add: ret_def)
  then have c: "bind_io ?p (\<lambda>_. ret (dict_set (recorded AppSingle cfg slg story)
                 ''portraitcoverurl''
                 (JStr (cdn_url AppSingle cfg (cover_object_key cfg slg)))))
        = (fst ?p, Inr (dict_set (recorded AppSingle cfg slg story) ''portraitcoverurl''
                 (JStr (cdn_url AppSingle cfg (cover_object_key cfg slg)))))" .
  have "generate_images_and_upload cfg srv story
      = bind_io (image_loop AppSingle cfg srv slg [1..<7] (story, None))
          (\<lambda>(story', last_img).
             case last_img of
               None \<Rightarrow> lift (Inl (Exn NameError ''img''))
             | Some cover_img \<Rightarrow>
                 bind_io (publish cfg srv cover_img (cover_object_key cfg slg)) (\<lambda>_.
                 ret (dict_set story' ''portraitcoverurl''
                        (JStr (cdn_url AppSingle cfg (cover_object_key cfg slg))))))"
    by (simp only: generate_images_and_upload_def assms(1) bind_io_lift_Inr)
  also have "\<dots> = (loop_events AppSingle cfg srv slg story @ fst ?p,
          Inr (dict_set (recorded AppSingle cfg slg story) ''portraitcoverurl''
                 (JStr (cdn_url AppSingle cfg (cover_object_key cfg slg)))))"
    by (simp only: image_loop_all [OF assms(2)]) (simp add: c)
  finally show ?thesis .
qed

lemma upload_of_failed_slide:
  assumes gen: "snd (generated_image srv i (slide_prompt story i)) = Inl e"
    and ok: "succeeds (slide_step var cfg srv slg story i)"
  shows "\<exists>raw img fb buf.
      http_get_raw srv i (DEFAULT_ERROR_IMAGE cfg) = Inr raw \<and> image_open srv raw = Inr img
      \<and> normalize srv img = Inr fb \<and> save_jpeg srv fb = Inr buf
      \<and> Upload (slide_object_key cfg slg i) buf \<in> set (fst (slide_step var cfg srv slg story i))
      \<and> Error (image_error var i e) \<in> set (fst (slide_step var cfg srv slg story i))"
  using assms
  by (auto simp: succeeds_def slide_step_def snd_bind_io fst_bind_io snd_slide_image
        fst_slide_image slide_prompt_def snd_fallback_image fst_fallback_image snd_publish
        fst_publish bind_exn_def ret_def
      split: sum.splits)

lemma image_key_not_cover: "j \<in> set [1..<7] \<Longrightarrow> image_key j \<noteq> ''portraitcoverurl''"
  unfolding slides by (auto simp: image_keys)

lemma image_loop_append:
  "image_loop var cfg srv slg (xs @ ys) st
     = bind_io (image_loop var cfg srv slg xs st) (image_loop var cfg srv slg ys)"
proof (induction xs arbitrary: st)
  case Nil
  then show ?case by simp
next
  case (Cons x xs)
  show ?case
    by (simp add: bind_io_assoc Cons.IH split_def del: bind_io_Inr bind_io_Inl)
qed

lemma prompts_recorded:
  "slide_prompt (foldl (\<lambda>s j. dict_set s (image_key j) (f j)) st js) i = slide_prompt st i"
  by (induction js arbitrary: st)
     (simp_all add: slide_prompt_def get_default_dict_set image_key_neq_alt_key)

lemma image_loop_abort:
  assumes "\<forall>j\<in>set js. succeeds (slide_step var cfg srv slg story j)"
    and "snd (slide_step var cfg srv slg story i) = Inl e"
  shows "image_loop var cfg srv slg (js @ i # rest) (story, lst)
       = (concat (map (\<lambda>j. fst (slide_step var cfg srv slg story j)) (js @ [i])), Inl e)"
proof -
  let ?st = "foldl (\<lambda>s j. dict_set s (image_key j) (slide_url var cfg slg j)) story js"
  have p: "slide_prompt ?st i = slide_prompt story i" by (rule prompts_recorded)
  from slide_step_cong [OF p, of var cfg srv slg] assms(2)
  have "slide_step var cfg srv slg ?st i = (fst (slide_step var cfg srv slg story i), Inl e)"
    by (simp add: prod_eq_iff)
  then show ?thesis
    by (simp add: image_loop_append image_loop_ok [OF assms(1)])
qed

lemma split_slides: "i \<in> set [1..<7] \<Longrightarrow> [1..<7] = [1..<i] @ i # [Suc i..<7]"
proof -
  assume "i \<in> set [1..<7]"
  then have "1 \<le> i" and "i < 7" by simp_all
  then have "[1..<7] = [1..<i] @ [i..<7]"
    by (metis le_add_diff_inverse less_imp_le_nat upt_add_eq_append)
  with \<open>i < 7\<close> show ?thesis by (simp add: upt_conv_Cons)
qed

lemma snd_slide_step_fallback_fails:
  assumes "snd (generated_image srv i (slide_prompt story i)) = Inl e0"
    and "snd (fallback_image var cfg srv i e0) = Inl e"
  shows "snd (slide_step var cfg srv slg story i) = Inl e"
  using assms by (simp add: slide_step_def snd_bind_io snd_slide_image slide_prompt_def)

lemma snd_slide_step_publish_fails:
  assumes "snd (slide_image var cfg srv i (slide_prompt story i)) = Inr img"
    and "snd (publish cfg srv img (slide_object_key cfg slg i)) = Inl e"
  shows "snd (slide_step var cfg srv slg story i) = Inl e"
  using assms by (simp add: slide_step_def snd_bind_io slide_prompt_def)

text \<open>
  C10. Nothing catches a failure in the \<^verbatim>\<open>except\<close> branch or in the upload step: when the
  slides before slide \<open>i\<close> completed and at slide \<open>i\<close> either the generation and then the
  fallback fail, or the image is there and its JPEG encoding or upload fails, the pipeline
  ends with that exception, having done nothing beyond slide \<open>i\<close>, in both variants.
\<close>

theorem fallback_and_upload_failures_abort:
  assumes "i \<in> set [1..<7]"
    and "slug var story = Inr slg"
    and "\<forall>j\<in>set [1..<i]. succeeds (slide_step var cfg srv slg story j)"
    and "(\<exists>e0. snd (generated_image srv i (slide_prompt story i)) = Inl e0
               \<and> snd (fallback_image var cfg srv i e0) = Inl e)
         \<or> (\<exists>img. snd (slide_image var cfg srv i (slide_prompt story i)) = Inr img
               \<and> snd (publish cfg srv img (slide_object_key cfg slg i)) = Inl e)"
  shows "image_pipeline var cfg srv story
       = (concat (map (\<lambda>j. fst (slide_step var cfg srv slg story j)) [1..<Suc i]), Inl e)"
proof -
  from assms(4) have f: "snd (slide_step var cfg srv slg story i) = Inl e"
  proof (elim disjE exE conjE)
    fix e0
    assume "snd (generated_image srv i (slide_prompt story i)) = Inl e0"
      and "snd (fallback_image var cfg srv i e0) = Inl e"
    then show ?thesis by (rule snd_slide_step_fallback_fails)
  next
    fix img
    assume "snd (slide_image var cfg srv i (slide_prompt story i)) = Inr img"
      and "snd (publish cfg srv img (slide_object_key cfg slg i)) = Inl e"
    then show ?thesis by (rule snd_slide_step_publish_fails)
  qed
  from assms(1) have u: "[1..<Suc i] = [1..<i] @ [i]" by simp
  have loop: "image_loop var cfg srv slg [1..<7] (story, None)
       = (concat (map (\<lambda>j. fst (slide_step var cfg srv slg story j)) [1..<Suc i]), Inl e)"
    by (subst split_slides [OF assms(1)], subst u) (rule image_loop_abort [OF assms(3) f])
  show ?thesis
  proof (cases var)
    case App
    have "generate_images cfg srv story
      = bind_io (image_loop App cfg srv slg [1..<7] (story, None))
          (\<lambda>(story', last_img). ret story')"
      using assms(2) App by (simp only: generate_images_def bind_io_lift_Inr)
    with loop App show ?thesis by (simp add: image_pipeline_def)
  next
    case AppSingle
    have "generate_images_and_upload cfg srv story
      = bind_io (image_loop AppSingle cfg srv slg [1..<7] (story, None))
          (\<lambda>(story', last_img).
             case last_img of
               None \<Rightarrow> lift (Inl (Exn NameError ''img''))
             | Some cover_img \<Rightarrow>
                 bind_io (publish cfg srv cover_img (cover_object_key cfg slg)) (\<lambda>_.
                 ret (dict_set story' ''portraitcoverurl''
                        (JStr (cdn_url AppSingle cfg (cover_object_key cfg slg))))))"
      using assms(2) AppSingle by (simp only: generate_images_and_upload_def bind_io_lift_Inr)
    with loop AppSingle show ?thesis by (simp add: image_pipeline_def)
  qed
qed

theorem fallback_and_upload_failures_abort_witness:
  "image_pipeline App demo_config broken_services demo_story
       = (concat (map (\<lambda>j. fst (slide_step App demo_config broken_services
                                 ''how-plants-eat-sunlight'' demo_story j)) [1..<Suc 3]),
          Inl (Exn ExternalError ''no fallback''))"
proof -
  have a: "(3::nat) \<in> set [1..<7]" by simp
  have b: "slug App demo_story = Inr ''how-plants-eat-sunlight''" by code_simp
  have c: "\<forall>j\<in>set [1..<3]. succeeds (slide_step App demo_config broken_services
             ''how-plants-eat-sunlight'' demo_story j)" by code_simp
  have d: "snd (generated_image broken_services 3 (slide_prompt demo_story 3))
             = Inl (Exn ExternalError ''boom'')
           \<and> snd (fallback_image App demo_config broken_services 3 (Exn ExternalError ''boom''))
             = Inl (Exn ExternalError ''no fallback'')" by code_simp
  then have d': "(\<exists>e0. snd (generated_image broken_services 3 (slide_prompt demo_story 3)) = Inl e0
               \<and> snd (fallback_image App demo_config broken_services 3 e0)
                   = Inl (Exn ExternalError ''no fallback''))
         \<or> (\<exists>img. snd (slide_image App demo_config broken_services 3 (slide_prompt demo_story 3))
                     = Inr img
               \<and> snd (publish demo_config broken_services img
                         (slide_object_key demo_config ''how-plants-eat-sunlight'' 3))
                   = Inl (Exn ExternalError ''no fallback''))" by blast
  from fallback_and_upload_failures_abort [OF a b c d'] show ?thesis .
qed

subsection \<open>The loop body against the pictures of the specification\<close>

lemma snd_fallback_picture: "snd (fallback_image var cfg srv i e) = fallback_picture cfg srv i"
  by (auto simp: snd_fallback_image fallback_picture_def normalize_def bind_exn_def
        split: sum.splits)

lemma snd_slide_picture:
  "snd (slide_image var cfg srv j (slide_prompt story j)) = slide_picture cfg srv story j"
  by (simp add: snd_slide_image snd_generated_image snd_fallback_picture slide_picture_def
        split: sum.splits)

lemma slide_step_publishable:
  assumes "publishable cfg srv slg story j"
  shows "\<exists>img buf. slide_picture cfg srv story j = Inr img \<and> save_jpeg srv img = Inr buf
      \<and> slide_jpeg cfg srv story j = Inr buf
      \<and> upload_fileobj srv buf (AWS_BUCKET cfg) (slide_object_key cfg slg j) = Inr ()
      \<and> snd (slide_step var cfg srv slg story j)
          = Inr (dict_set story (image_key j) (slide_url var cfg slg j), img)
      \<and> Upload (slide_object_key cfg slg j) buf \<in> set (fst (slide_step var cfg srv slg story j))"
proof -
  from assms obtain img buf where img: "slide_picture cfg srv story j = Inr img"
    and buf: "save_jpeg srv img = Inr buf"
    and up: "upload_fileobj srv buf (AWS_BUCKET cfg) (slide_object_key cfg slg j) = Inr ()"
    by (auto simp: publishable_def slide_jpeg_def slide_object_key_def bind_exn_def
          split: sum.splits)
  from img have si: "snd (slide_image var cfg srv j (get_default story (alt_key j) (JStr []))) = Inr img"
    using snd_slide_picture [of var cfg srv j story] by (simp add: slide_prompt_def)
  have pub: "snd (publish cfg srv img (slide_object_key cfg slg j)) = Inr ()"
    and pev: "fst (publish cfg srv img (slide_object_key cfg slg j))
                = [Upload (slide_object_key cfg slg j) buf]"
    using buf up by (simp_all add: snd_publish fst_publish)
  have "snd (slide_step var cfg srv slg story j)
          = Inr (dict_set story (image_key j) (slide_url var cfg slg j), img)"
    by (simp add: slide_step_def snd_bind_io si pub ret_def slide_url_def)
  moreover have "Upload (slide_object_key cfg slg j) buf
      \<in> set (fst (slide_step var cfg srv slg story j))"
    by (simp add: slide_step_def fst_bind_io si pub pev ret_def)
  moreover from img buf have "slide_jpeg cfg srv story j = Inr buf"
    by (simp add: slide_jpeg_def)
  ultimately show ?thesis using img buf up by blast
qed

lemma publishable_succeeds:
  "publishable cfg srv slg story j \<Longrightarrow> succeeds (slide_step var cfg srv slg story j)"
  using slide_step_publishable [of cfg srv slg story j var] by (auto simp: succeeds_def)

lemma publishable_step_image:
  "publishable cfg srv slg story j
     \<Longrightarrow> slide_picture cfg srv story j = Inr (step_image var cfg srv slg story j)"
  using slide_step_publishable [of cfg srv slg story j var] by (auto simp: step_image_def)

lemma image_requests_slide_step:
  "filter is_image_request (fst (slide_step var cfg srv slg story j))
     = [ImageRequest j (slide_prompt story j)]"
  by (auto simp: slide_step_def fst_bind_io snd_bind_io fst_slide_image generated_image_def
        call_def lift_def fst_fallback_image fst_publish is_image_request_def ret_def
        slide_prompt_def
      split: sum.splits)

lemma image_requests_loop:
  "filter is_image_request (loop_events var cfg srv slg story)
     = map (\<lambda>j. ImageRequest j (slide_prompt story j)) [1..<7]"
proof -
  have "concat (map (\<lambda>j. [f j]) js) = map f js" for f :: "nat \<Rightarrow> event" and js
    by (induction js) simp_all
  then show ?thesis
    by (simp add: loop_events_def filter_concat comp_def image_requests_slide_step)
qed

lemma fallback_pictureD:
  assumes "fallback_picture cfg srv i = Inr fb"
  shows "\<exists>raw img rgb. http_get_raw srv i (DEFAULT_ERROR_IMAGE cfg) = Inr raw
      \<and> image_open srv raw = Inr img \<and> pil_convert srv ''RGB'' img = Inr rgb
      \<and> pil_resize srv (720, 1200) rgb = Inr fb"
  using assms by (auto simp: fallback_picture_def bind_exn_def split: sum.splits)

lemma cover_publishable_succeeds:
  assumes "publishable cfg srv slg story 6" and "cover_publishable cfg srv slg story"
  shows "succeeds (publish cfg srv (step_image var cfg srv slg story 6) (cover_object_key cfg slg))"
  using assms publishable_step_image [OF assms(1), of var]
  by (auto simp: cover_publishable_def slide_jpeg_def succeeds_def snd_publish bind_exn_def
        cover_object_key_def split: sum.splits)

text \<open>
  C3. Let the generated picture of slide \<open>i\<close> (1 to 6) fail, anywhere in the request, the
  fetch, the decoding or the normalization. If the services allow every slide to be
  published (its picture, generated or else fallback, exists, can be encoded and uploaded;
  in variant 1 the cover can be uploaded too), the pipeline does not abort: it returns a
  record in which each of s1image1 ... s6image1 holds the URL of its slide; every slide's
  JPEG was uploaded under its key; for slide \<open>i\<close> the configured fallback image was fetched,
  decoded, converted to RGB and resized to 720 by 1200, and the JPEG of that picture is what
  was uploaded under the key of slide \<open>i\<close>; the error of slide \<open>i\<close> was shown; and the errors
  shown are exactly one for each slide whose generated picture failed, in slide order.
\<close>

theorem image_failure_falls_back:
  assumes "i \<in> set [1..<7]"
    and "slug var story = Inr slg"
    and "generated_picture srv i (slide_prompt story i) = Inl e"
    and "\<forall>j\<in>set [1..<7]. publishable cfg srv slg story j"
    and "var = AppSingle \<longrightarrow> cover_publishable cfg srv slg story"
  shows "\<exists>es story' raw img rgb fb buf.
      image_pipeline var cfg srv story = (es, Inr story')
      \<and> (\<forall>j\<in>set [1..<7].
            map_of story' (''s'' @ str_nat j @ ''image1'')
              = Some (JStr (cdn_url var cfg (S3_PREFIX cfg @ ''/'' @ slg @ ''/slide'' @ str_nat j @ ''.jpg''))))
      \<and> (\<forall>j\<in>set [1..<7]. \<exists>b.
            slide_jpeg cfg srv story j = Inr b
            \<and> Upload (S3_PREFIX cfg @ ''/'' @ slg @ ''/slide'' @ str_nat j @ ''.jpg'') b \<in> set es)
      \<and> http_get_raw srv i (DEFAULT_ERROR_IMAGE cfg) = Inr raw \<and> image_open srv raw = Inr img
      \<and> pil_convert srv ''RGB'' img = Inr rgb \<and> pil_resize srv (720, 1200) rgb = Inr fb
      \<and> save_jpeg srv fb = Inr buf
      \<and> Upload (S3_PREFIX cfg @ ''/'' @ slg @ ''/slide'' @ str_nat i @ ''.jpg'') buf \<in> set es
      \<and> Error (image_error var i e) \<in> set es
      \<and> filter is_error es
          = map (\<lambda>j. Error (image_error var j (the (generation_error srv story j))))
              (filter (\<lambda>j. generation_error srv story j \<noteq> None) [1..<7])"
proof -
  let ?loop = "loop_events var cfg srv slg story"
  let ?cover = "fst (publish cfg srv (step_image var cfg srv slg story 6) (cover_object_key cfg slg))"
  from assms(4) have steps: "\<forall>j\<in>set [1..<7]. succeeds (slide_step var cfg srv slg story j)"
    using publishable_succeeds by blast
  have ups: "\<forall>j\<in>set [1..<7]. \<exists>b. slide_jpeg cfg srv story j = Inr b
      \<and> Upload (slide_object_key cfg slg j) b \<in> set ?loop"
  proof
    fix j assume j: "j \<in> set [1..<7]"
    with assms(4) have "publishable cfg srv slg story j" by blast
    from slide_step_publishable [OF this, of var] obtain b where
      "slide_jpeg cfg srv story j = Inr b"
      "Upload (slide_object_key cfg slg j) b \<in> set (fst (slide_step var cfg srv slg story j))"
      by blast
    with j show "\<exists>b. slide_jpeg cfg srv story j = Inr b
      \<and> Upload (slide_object_key cfg slg j) b \<in> set ?loop"
      unfolding loop_events_def by auto
  qed
  from assms(1,4) have pi: "publishable cfg srv slg story i" by blast
  from slide_step_publishable [OF pi, of var] obtain fb buf where
    pic: "slide_picture cfg srv story i = Inr fb" and buf: "save_jpeg srv fb = Inr buf"
    and up: "Upload (slide_object_key cfg slg i) buf \<in> set (fst (slide_step var cfg srv slg story i))"
    by blast
  from pic assms(3) have "fallback_picture cfg srv i = Inr fb"
    by (simp add: slide_picture_def)
  from fallback_pictureD [OF this] obtain raw img rgb where
    fb: "http_get_raw srv i (DEFAULT_ERROR_IMAGE cfg) = Inr raw" "image_open srv raw = Inr img"
      "pil_convert srv ''RGB'' img = Inr rgb" "pil_resize srv (720, 1200) rgb = Inr fb"
    by blast
  from assms(1) up have up': "Upload (slide_object_key cfg slg i) buf \<in> set ?loop"
    unfolding loop_events_def by auto
  from assms(1,3) steps have er: "Error (image_error var i e) \<in> set ?loop"
    using upload_of_failed_slide [of srv i story e var cfg slg]
    unfolding loop_events_def by (auto simp: snd_generated_image)
  have errs: "filter is_error ?loop
          = map (\<lambda>j. Error (image_error var j (the (generation_error srv story j))))
              (filter (\<lambda>j. generation_error srv story j \<noteq> None) [1..<7])"
    unfolding loop_events_def by (rule errors_loop)
  have rec: "\<forall>j\<in>set [1..<7]. map_of (recorded var cfg slg story) (image_key j)
        = Some (slide_url var cfg slg j)"
    unfolding recorded_def by (intro ballI image_fields_recorded)
  have "\<exists>es story'. image_pipeline var cfg srv story = (es, Inr story')
      \<and> (\<forall>j\<in>set [1..<7]. map_of story' (image_key j) = Some (slide_url var cfg slg j))
      \<and> (\<forall>j\<in>set [1..<7]. \<exists>b. slide_jpeg cfg srv story j = Inr b
            \<and> Upload (slide_object_key cfg slg j) b \<in> set es)
      \<and> Upload (slide_object_key cfg slg i) buf \<in> set es
      \<and> Error (image_error var i e) \<in> set es
      \<and> filter is_error es
          = map (\<lambda>j. Error (image_error var j (the (generation_error srv story j))))
              (filter (\<lambda>j. generation_error srv story j \<noteq> None) [1..<7])"
  proof (cases var)
    case App
    with assms(2) steps have "image_pipeline var cfg srv story = (?loop, Inr (recorded var cfg slg story))"
      by (simp add: image_pipeline_def generate_images_ok)
    with ups up' er errs rec show ?thesis by blast
  next
    case AppSingle
    from assms(1,4) have "publishable cfg srv slg story 6" by (simp add: slides)
    with AppSingle assms(5) have cov: "succeeds (publish cfg srv
        (step_image AppSingle cfg srv slg story 6) (cover_object_key cfg slg))"
      using cover_publishable_succeeds by blast
    with AppSingle assms(2) steps have run: "image_pipeline var cfg srv story
        = (?loop @ ?cover,
           Inr (dict_set (recorded var cfg slg story) ''portraitcoverurl''
                 (JStr (cdn_url AppSingle cfg (cover_object_key cfg slg)))))"
      by (simp add: image_pipeline_def generate_images_and_upload_ok)
    have rec': "\<forall>j\<in>set [1..<7].
        map_of (dict_set (recorded var cfg slg story) ''portraitcoverurl''
                 (JStr (cdn_url AppSingle cfg (cover_object_key cfg slg)))) (image_key j)
        = Some (slide_url var cfg slg j)"
      using rec image_key_not_cover by (simp add: map_of_dict_set)
    have errs': "filter is_error (?loop @ ?cover)
          = map (\<lambda>j. Error (image_error var j (the (generation_error srv story j))))
              (filter (\<lambda>j. generation_error srv story j \<noteq> None) [1..<7])"
      using errs by (simp add: errors_publish)
    from ups have ups': "\<forall>j\<in>set [1..<7]. \<exists>b. slide_jpeg cfg srv story j = Inr b
            \<and> Upload (slide_object_key cfg slg j) b \<in> set (?loop @ ?cover)" by auto
    from up' er have "Upload (slide_object_key cfg slg i) buf \<in> set (?loop @ ?cover)"
      and "Error (image_error var i e) \<in> set (?loop @ ?cover)" by simp_all
    with run rec' errs' ups' show ?thesis by blast
  qed
  then obtain es story' where
    "image_pipeline var cfg srv story = (es, Inr story')"
    "\<forall>j\<in>set [1..<7]. map_of story' (image_key j) = Some (slide_url var cfg slg j)"
    "\<forall>j\<in>set [1..<7]. \<exists>b. slide_jpeg cfg srv story j = Inr b
            \<and> Upload (slide_object_key cfg slg j) b \<in> set es"
    "Upload (slide_object_key cfg slg i) buf \<in> set es"
    "Error (image_error var i e) \<in> set es"
    "filter is_error es
          = map (\<lambda>j. Error (image_error var j (the (generation_error srv story j))))
              (filter (\<lambda>j. generation_error srv story j \<noteq> None) [1..<7])"
    by blast
  with fb buf show ?thesis
    unfolding image_key_def slide_object_key_def slide_url_def by blast
qed

theorem image_failure_falls_back_witness:
  "\<exists>es story' raw img rgb fb buf.
      image_pipeline AppSingle demo_config failing_services demo_story = (es, Inr story')
      \<and> (\<forall>j\<in>set [1..<7].
            map_of story' (''s'' @ str_nat j @ ''image1'')
              = Some (JStr (cdn_url AppSingle demo_config (S3_PREFIX demo_config @ ''/'' @ ''how-plants-eat-sunlight'' @ ''/slide'' @ str_nat j @ ''.jpg''))))
      \<and> (\<forall>j\<in>set [1..<7]. \<exists>b.
            slide_jpeg demo_config failing_services demo_story j = Inr b
            \<and> Upload (S3_PREFIX demo_config @ ''/'' @ ''how-plants-eat-sunlight'' @ ''/slide'' @ str_nat j @ ''.jpg'') b \<in> set es)
      \<and> http_get_raw failing_services 3 (DEFAULT_ERROR_IMAGE demo_config) = Inr raw \<and> image_open failing_services raw = Inr img
      \<and> pil_convert failing_services ''RGB'' img = Inr rgb \<and> pil_resize failing_services (720, 1200) rgb = Inr fb
      \<and> save_jpeg failing_services fb = Inr buf
      \<and> Upload (S3_PREFIX demo_config @ ''/'' @ ''how-plants-eat-sunlight'' @ ''/slide'' @ str_nat 3 @ ''.jpg'') buf \<in> set es
      \<and> Error (image_error AppSingle 3 (Exn ExternalError ''boom'')) \<in> set es
      \<and> filter is_error es
          = map (\<lambda>j. Error (image_error AppSingle j (the (generation_error failing_services demo_story j))))
              (filter (\<lambda>j. generation_error failing_services demo_story j \<noteq> None) [1..<7])"
proof -
  have a: "(3::nat) \<in> set [1..<7]" by simp
  have b: "slug AppSingle demo_story = Inr ''how-plants-eat-sunlight''" by code_simp
  have c: "generated_picture failing_services 3 (slide_prompt demo_story 3)
             = Inl (Exn ExternalError ''boom'')" by code_simp
  have d: "\<forall>j\<in>set [1..<7]. publishable demo_config failing_services
             ''how-plants-eat-sunlight'' demo_story j" by code_simp
  have e: "AppSingle = AppSingle \<longrightarrow> cover_publishable demo_config failing_services
             ''how-plants-eat-sunlight'' demo_story" by code_simp
  from image_failure_falls_back [OF a b c d e] show ?thesis .
qed

text \<open>
  C7. In variant 1, when the services allow the six slides to be published, the run
  consists of the events of the loop, which hold exactly the six image requests of the
  slides and the upload of the JPEG of slide 6's picture (generated or fallback), followed
  by one more upload of that same JPEG under prefix/slug/portrait_cover.jpg: no further
  image is requested. If this last upload raises, the run ends with that exception;
  otherwise the returned record has portraitcoverurl set to the CDN base followed by that
  key, next to the six slide URLs.
\<close>

theorem portrait_cover_reuses_last_image:
  assumes "slug AppSingle story = Inr slg"
    and "\<forall>j\<in>set [1..<7]. publishable cfg srv slg story j"
  shows "\<exists>img buf es0.
      slide_picture cfg srv story 6 = Inr img \<and> save_jpeg srv img = Inr buf
      \<and> Upload (S3_PREFIX cfg @ ''/'' @ slg @ ''/slide'' @ str_nat 6 @ ''.jpg'') buf \<in> set es0
      \<and> filter is_image_request es0 = map (\<lambda>j. ImageRequest j (slide_prompt story j)) [1..<7]
      \<and> fst (generate_images_and_upload cfg srv story)
          = es0 @ [Upload (S3_PREFIX cfg @ ''/'' @ slg @ ''/portrait_cover.jpg'') buf]
      \<and> (\<forall>e. upload_fileobj srv buf (AWS_BUCKET cfg)
                 (S3_PREFIX cfg @ ''/'' @ slg @ ''/portrait_cover.jpg'') = Inl e
            \<longrightarrow> snd (generate_images_and_upload cfg srv story) = Inl e)
      \<and> (upload_fileobj srv buf (AWS_BUCKET cfg)
             (S3_PREFIX cfg @ ''/'' @ slg @ ''/portrait_cover.jpg'') = Inr ()
            \<longrightarrow> (\<exists>story'. snd (generate_images_and_upload cfg srv story) = Inr story'
                 \<and> map_of story' ''portraitcoverurl''
                     = Some (JStr (CDN_BASE cfg @ S3_PREFIX cfg @ ''/'' @ slg @ ''/portrait_cover.jpg''))
                 \<and> (\<forall>j\<in>set [1..<7].
                       map_of story' (''s'' @ str_nat j @ ''image1'')
                         = Some (JStr (CDN_BASE cfg @ S3_PREFIX cfg @ ''/'' @ slg @ ''/slide''
                                       @ str_nat j @ ''.jpg'')))))"
proof -
  let ?img = "step_image AppSingle cfg srv slg story 6"
  let ?loop = "loop_events AppSingle cfg srv slg story"
  let ?key = "S3_PREFIX cfg @ ''/'' @ slg @ ''/portrait_cover.jpg''"
  let ?url = "JStr (CDN_BASE cfg @ ?key)"
  from assms(2) have steps: "\<forall>j\<in>set [1..<7]. succeeds (slide_step AppSingle cfg srv slg story j)"
    using publishable_succeeds by blast
  from assms(2) have p6: "publishable cfg srv slg story 6" by (simp add: slides)
  from slide_step_publishable [OF p6, of AppSingle] publishable_step_image [OF p6, of AppSingle]
  obtain buf where img: "slide_picture cfg srv story 6 = Inr ?img"
    and buf: "save_jpeg srv ?img = Inr buf"
    and up: "Upload (slide_object_key cfg slg 6) buf
               \<in> set (fst (slide_step AppSingle cfg srv slg story 6))"
    by auto
  from up have up': "Upload (slide_object_key cfg slg 6) buf \<in> set ?loop"
    unfolding loop_events_def slides by simp
  have run: "generate_images_and_upload cfg srv story
      = bind_io (image_loop AppSingle cfg srv slg [1..<7] (story, None))
          (\<lambda>(story', last_img).
             case last_img of
               None \<Rightarrow> lift (Inl (Exn NameError ''img''))
             | Some cover_img \<Rightarrow>
                 bind_io (publish cfg srv cover_img (cover_object_key cfg slg)) (\<lambda>_.
                 ret (dict_set story' ''portraitcoverurl''
                        (JStr (cdn_url AppSingle cfg (cover_object_key cfg slg))))))"
    by (simp only: generate_images_and_upload_def assms(1) bind_io_lift_Inr)
  have f: "fst (generate_images_and_upload cfg srv story) = ?loop @ [Upload ?key buf]"
    unfolding run image_loop_all [OF steps]
    by (simp add: fst_bind_io fst_publish buf cover_object_key_def ret_def split: sum.splits)
  have s: "snd (generate_images_and_upload cfg srv story)
          = (case upload_fileobj srv buf (AWS_BUCKET cfg) ?key of
               Inl e \<Rightarrow> Inl e
             | Inr u \<Rightarrow>
                 Inr (dict_set (recorded AppSingle cfg slg story) ''portraitcoverurl'' ?url))"
    unfolding run image_loop_all [OF steps]
    by (simp add: snd_bind_io snd_publish buf cover_object_key_def cdn_url_def ret_def
        split: sum.splits)
  have rec: "\<forall>j\<in>set [1..<7].
        map_of (dict_set (recorded AppSingle cfg slg story) ''portraitcoverurl'' ?url) (image_key j)
        = Some (slide_url AppSingle cfg slg j)"
  proof -
    have "\<forall>j\<in>set [1..<7]. map_of (recorded AppSingle cfg slg story) (image_key j)
        = Some (slide_url AppSingle cfg slg j)"
      unfolding recorded_def by (intro ballI image_fields_recorded)
    then show ?thesis using image_key_not_cover by (simp add: map_of_dict_set)
  qed
  have cov: "map_of (dict_set (recorded AppSingle cfg slg story) ''portraitcoverurl'' ?url)
        ''portraitcoverurl'' = Some ?url"
    by (simp add: map_of_dict_set)
  have fail: "\<forall>e. upload_fileobj srv buf (AWS_BUCKET cfg) ?key = Inl e
            \<longrightarrow> snd (generate_images_and_upload cfg srv story) = Inl e"
    by (simp add: s)
  have ok: "upload_fileobj srv buf (AWS_BUCKET cfg) ?key = Inr ()
            \<longrightarrow> (\<exists>story'. snd (generate_images_and_upload cfg srv story) = Inr story'
                 \<and> map_of story' ''portraitcoverurl'' = Some ?url
                 \<and> (\<forall>j\<in>set [1..<7]. map_of story' (image_key j)
                       = Some (slide_url AppSingle cfg slg j)))"
    using rec cov by (simp add: s)
  from img buf up' image_requests_loop [of AppSingle cfg srv slg story] f fail ok
  show ?thesis
    unfolding image_key_def slide_object_key_def slide_url_def cdn_url_def
    by (simp only: variant.case append_assoc) blast
qed

theorem portrait_cover_reuses_last_image_witness:
  "\<exists>img buf es0.
      slide_picture demo_config failing_services demo_story 6 = Inr img \<and> save_jpeg failing_services img = Inr buf
      \<and> Upload (S3_PREFIX demo_config @ ''/'' @ ''how-plants-eat-sunlight'' @ ''/slide'' @ str_nat 6 @ ''.jpg'') buf \<in> set es0
      \<and> filter is_image_request es0 = map (\<lambda>j. ImageRequest j (slide_prompt demo_story j)) [1..<7]
      \<and> fst (generate_images_and_upload demo_config failing_services demo_story)
          = es0 @ [Upload (S3_PREFIX demo_config @ ''/'' @ ''how-plants-eat-sunlight'' @ ''/portrait_cover.jpg'') buf]
      \<and> (\<forall>e. upload_fileobj failing_services buf (AWS_BUCKET demo_config)
                 (S3_PREFIX demo_config @ ''/'' @ ''how-plants-eat-sunlight'' @ ''/portrait_cover.jpg'') = Inl e
            \<longrightarrow> snd (generate_images_and_upload demo_config failing_services demo_story) = Inl e)
      \<and> (upload_fileobj failing_services buf (AWS_BUCKET demo_config)
             (S3_PREFIX demo_config @ ''/'' @ ''how-plants-eat-sunlight'' @ ''/portrait_cover.jpg'') = Inr ()
            \<longrightarrow> (\<exists>story'. snd (generate_images_and_upload demo_config failing_services demo_story) = Inr story'
                 \<and> map_of story' ''portraitcoverurl''
                     = Some (JStr (CDN_BASE demo_config @ S3_PREFIX demo_config @ ''/'' @ ''how-plants-eat-sunlight'' @ ''/portrait_cover.jpg''))
                 \<and> (\<forall>j\<in>set [1..<7].
                       map_of story' (''s'' @ str_nat j @ ''image1'')
                         = Some (JStr (CDN_BASE demo_config @ S3_PREFIX demo_config @ ''/'' @ ''how-plants-eat-sunlight'' @ ''/slide''
                                       @ str_nat j @ ''.jpg'')))))"
proof -
  have b: "slug AppSingle demo_story = Inr ''how-plants-eat-sunlight''" by code_simp
  have d: "\<forall>j\<in>set [1..<7]. publishable demo_config failing_services
             ''how-plants-eat-sunlight'' demo_story j" by code_simp
  from portrait_cover_reuses_last_image [OF b d] show ?thesis .
qed

subsection \<open>The narration loop\<close>

lemma narrate_skip:
  "text_field st field \<Longrightarrow> \<not> present_nonempty st field
     \<Longrightarrow> narrate var cfg srv st field = ([], Inr None)"
  by (auto simp: narrate_def present_nonempty_def text_field_def ret_def
        split: option.splits json.splits)

lemma narrate_speak:
  assumes "present_nonempty st field" and "audio_ok cfg srv st field"
  shows "narrate var cfg srv st field
       = ([Speak (get_default st field JNull) (uuid4_hex srv field @ ''.mp3''),
           UploadFile (uuid4_hex srv field @ ''.mp3'') (audio_key_of cfg srv field)],
          Inr (Some (cdn_url var cfg (audio_key_of cfg srv field))))"
  using assms
  by (auto simp: narrate_def present_nonempty_def audio_ok_def get_default_def audio_key_of_def
        audio_file_def audio_object_key_def call_def ret_def
        split: option.splits json.splits)

lemma narrate_cong:
  "map_of st field = map_of story field
     \<Longrightarrow> narrate var cfg srv st field = narrate var cfg srv story field"
  by (simp add: narrate_def)

lemma audio_loop_single_run:
  assumes "\<forall>(f, a)\<in>set fs. text_field story f"
    and "\<forall>(f, a)\<in>set fs. present_nonempty story f \<longrightarrow> audio_ok cfg srv story f"
    and "\<forall>(f, a)\<in>set fs. map_of st f = map_of story f"
    and "\<forall>(f, a)\<in>set fs. \<forall>(f', a')\<in>set fs. a \<noteq> f'"
  shows "audio_loop_single cfg srv fs st
       = (concat (map (\<lambda>(f, a).
                    [Speak (get_default story f JNull) (uuid4_hex srv f @ ''.mp3''),
                     UploadFile (uuid4_hex srv f @ ''.mp3'') (audio_key_of cfg srv f)])
                    (filter (\<lambda>(f, a). present_nonempty story f) fs)),
          Inr (foldl (\<lambda>s (f, a). dict_set s a (JStr (cdn_url AppSingle cfg (audio_key_of cfg srv f)))) st
                 (filter (\<lambda>(f, a). present_nonempty story f) fs)))"
  using assms
proof (induction fs arbitrary: st)
  case Nil
  then show ?case by (simp add: ret_def)
next
  case (Cons p fs)
  obtain f a where p: "p = (f, a)" by (cases p)
  from Cons.prems(3) p have same: "map_of st f = map_of story f" by simp
  from Cons.prems(1) p have tf: "text_field story f"
    and tfs: "\<forall>(f, a)\<in>set fs. text_field story f" by simp_all
  from Cons.prems(2) have ok: "\<forall>(f, a)\<in>set fs. present_nonempty story f \<longrightarrow> audio_ok cfg srv story f"
    by simp
  from Cons.prems(4) have dis: "\<forall>(f, a)\<in>set fs. \<forall>(f', a')\<in>set fs. a \<noteq> f'"
    by (simp add: case_prod_beta)
  from Cons.prems(3) have agree: "\<forall>(f, a)\<in>set fs. map_of st f = map_of story f" by simp
  show ?case
  proof (cases "present_nonempty story f")
    case False
    with tf have "narrate AppSingle cfg srv story f = ([], Inr None)" by (rule narrate_skip)
    with narrate_cong [OF same, of AppSingle cfg srv]
    have "narrate AppSingle cfg srv st f = ([], Inr None)" by (simp only:)
    with False p Cons.IH [OF tfs ok agree dis] show ?thesis by simp
  next
    case True
    with Cons.prems(2) p have "audio_ok cfg srv story f" by simp
    from narrate_speak [OF True this, of AppSingle] narrate_cong [OF same, of AppSingle cfg srv]
    have n: "narrate AppSingle cfg srv st f
        = ([Speak (get_default story f JNull) (uuid4_hex srv f @ ''.mp3''),
            UploadFile (uuid4_hex srv f @ ''.mp3'') (audio_key_of cfg srv f)],
           Inr (Some (cdn_url AppSingle cfg (audio_key_of cfg srv f))))"
      by (simp only:)
    let ?st' = "dict_set st a (JStr (cdn_url AppSingle cfg (audio_key_of cfg srv f)))"
    from Cons.prems(4) p have "\<forall>(f', a')\<in>set fs. a \<noteq> f'" by auto
    with agree have agree': "\<forall>(f, a)\<in>set fs. map_of ?st' f = map_of story f"
      by (auto simp: map_of_dict_set)
    from True p n Cons.IH [OF tfs ok agree' dis] show ?thesis by simp
  qed
qed

lemma audio_loop_run:
  assumes "\<forall>(f, a)\<in>set fs. text_field story f"
    and "\<forall>(f, a)\<in>set fs. present_nonempty story f \<longrightarrow> audio_ok cfg srv story f"
    and "\<forall>(f, a)\<in>set fs. map_of (fst st) f = map_of story f"
    and "\<forall>(f, a)\<in>set fs. \<forall>(f', a')\<in>set fs. a \<noteq> f'"
  shows "audio_loop cfg srv fs st
       = (concat (map (\<lambda>(f, a).
                    [Speak (get_default story f JNull) (uuid4_hex srv f @ ''.mp3''),
                     UploadFile (uuid4_hex srv f @ ''.mp3'') (audio_key_of cfg srv f)])
                    (filter (\<lambda>(f, a). present_nonempty story f) fs)),
          Inr (foldl (\<lambda>s (f, a). dict_set s a (JStr (cdn_url App cfg (audio_key_of cfg srv f)))) (fst st)
                 (filter (\<lambda>(f, a). present_nonempty story f) fs),
               foldl (\<lambda>s (f, a). dict_set s f (JStr (cdn_url App cfg (audio_key_of cfg srv f)))) (snd st)
                 (filter (\<lambda>(f, a). present_nonempty story f) fs)))"
  using assms
proof (induction fs arbitrary: st)
  case Nil
  then show ?case by (simp add: ret_def)
next
  case (Cons p fs)
  obtain f a where p: "p = (f, a)" by (cases p)
  from Cons.prems(3) p have same: "map_of (fst st) f = map_of story f" by simp
  from Cons.prems(1) p have tf: "text_field story f"
    and tfs: "\<forall>(f, a)\<in>set fs. text_field story f" by simp_all
  from Cons.prems(2) have ok: "\<forall>(f, a)\<in>set fs. present_nonempty story f \<longrightarrow> audio_ok cfg srv story f"
    by simp
  from Cons.prems(4) have dis: "\<forall>(f, a)\<in>set fs. \<forall>(f', a')\<in>set fs. a \<noteq> f'"
    by (simp add: case_prod_beta)
  from Cons.prems(3) have agree: "\<forall>(f, a)\<in>set fs. map_of (fst st) f = map_of story f" by simp
  show ?case
  proof (cases "present_nonempty story f")
    case False
    with tf have "narrate App cfg srv story f = ([], Inr None)" by (rule narrate_skip)
    with narrate_cong [OF same, of App cfg srv]
    have "narrate App cfg srv (fst st) f = ([], Inr None)" by (simp only:)
    with False p Cons.IH [OF tfs ok agree dis] show ?thesis by simp
  next
    case True
    with Cons.prems(2) p have "audio_ok cfg srv story f" by simp
    from narrate_speak [OF True this, of App] narrate_cong [OF same, of App cfg srv]
    have n: "narrate App cfg srv (fst st) f
        = ([Speak (get_default story f JNull) (uuid4_hex srv f @ ''.mp3''),
            UploadFile (uuid4_hex srv f @ ''.mp3'') (audio_key_of cfg srv f)],
           Inr (Some (cdn_url App cfg (audio_key_of cfg srv f))))"
      by (simp only:)
    let ?url = "JStr (cdn_url App cfg (audio_key_of cfg srv f))"
    let ?st' = "(dict_set (fst st) a ?url, dict_set (snd st) f ?url)"
    from Cons.prems(4) p have "\<forall>(f', a')\<in>set fs. a \<noteq> f'" by auto
    with agree have agree': "\<forall>(f, a)\<in>set fs. map_of (fst ?st') f = map_of story f"
      by (auto simp: map_of_dict_set)
    from True p n Cons.IH [OF tfs ok agree' dis] show ?thesis by simp
  qed
qed

lemma audio_fields_literal:
  "audio_fields =
     [(''storytitle'', ''s1audio1''), (''s2paragraph1'', ''s2audio1''),
      (''s3paragraph1'', ''s3audio1''), (''s4paragraph1'', ''s4audio1''),
      (''s5paragraph1'', ''s5audio1''), (''s6paragraph1'', ''s6audio1'')]"
  by (simp add: audio_fields_def)

lemma audio_keys_apart: "\<forall>(f, a)\<in>set audio_fields. \<forall>(f', a')\<in>set audio_fields. a \<noteq> f'"
  by (simp add: audio_fields_def)

text \<open>The record after assigning \<open>u x\<close> to the key \<open>key x\<close> for each \<open>x\<close> of a list whose keys
  differ.\<close>

lemma map_of_assigned_other:
  "k \<notin> key ` set xs
     \<Longrightarrow> map_of (foldl (\<lambda>s x. dict_set s (key x) (u x)) st xs) k = map_of st k"
  by (induction xs arbitrary: st) (simp_all add: map_of_dict_set)

lemma map_of_assigned:
  "distinct (map key xs) \<Longrightarrow> x \<in> set xs
     \<Longrightarrow> map_of (foldl (\<lambda>s x. dict_set s (key x) (u x)) st xs) (key x) = Some (u x)"
proof (induction xs arbitrary: st)
  case Nil
  then show ?case by simp
next
  case (Cons y ys)
  show ?case
  proof (cases "x = y")
    case True
    with Cons.prems(1) have "key x \<notin> key ` set ys" by auto
    from map_of_assigned_other [OF this] True show ?thesis
      by (simp add: map_of_dict_set)
  next
    case False
    with Cons.prems have "distinct (map key ys)" "x \<in> set ys" by auto
    with Cons.IH show ?thesis by simp
  qed
qed

lemma map_of_narrated:
  assumes "distinct (map key audio_fields)" and "p \<in> set audio_fields"
  shows "map_of (foldl (\<lambda>s x. dict_set s (key x) (u x)) st
                   (filter (\<lambda>(f, a). present_nonempty story f) audio_fields)) (key p)
       = (if present_nonempty story (fst p) then Some (u p) else map_of st (key p))"
proof (cases "present_nonempty story (fst p)")
  case True
  with assms(2) have "p \<in> set (filter (\<lambda>(f, a). present_nonempty story f) audio_fields)"
    by (auto simp: case_prod_beta)
  moreover from assms(1) have
    "distinct (map key (filter (\<lambda>(f, a). present_nonempty story f) audio_fields))"
    by (rule distinct_map_filter)
  ultimately show ?thesis using True by (simp add: map_of_assigned)
next
  case False
  have "key p \<notin> key ` set (filter (\<lambda>(f, a). present_nonempty story f) audio_fields)"
  proof
    assume "key p \<in> key ` set (filter (\<lambda>(f, a). present_nonempty story f) audio_fields)"
    then obtain q where q: "q \<in> set audio_fields" "present_nonempty story (fst q)" "key q = key p"
      by (auto simp: case_prod_beta)
    with assms have "q = p" by (meson distinct_map inj_onD)
    with q False show False by simp
  qed
  from map_of_assigned_other [OF this] False show ?thesis by simp
qed

text \<open>
  C4. The narration pipeline works through the fixed mapping storytitle to s1audio1,
  s2paragraph1 to s2audio1, ..., s6paragraph1 to s6audio1 in this order. For a record whose
  source fields are text fields, and services that synthesize and upload the fields that are
  present and non-empty, both variants return without an exception; the events are the
  synthesis and upload of exactly the present, non-empty fields, in the order of the
  mapping; the audio field of an entry holds the CDN URL of its clip if the source field is
  present and non-empty and is otherwise left as it was (absent, when the input did not
  have it); every other key keeps its value. So a fully populated record gets exactly the
  six audio fields. In app.py the side mapping holds the URL under the source field.
\<close>

theorem narration_fixed_mapping:
  assumes "\<forall>(f, a)\<in>set audio_fields. text_field story f"
    and "\<forall>(f, a)\<in>set audio_fields. present_nonempty story f \<longrightarrow> audio_ok cfg srv story f"
  shows "audio_fields =
           [(''storytitle'', ''s1audio1''), (''s2paragraph1'', ''s2audio1''),
            (''s3paragraph1'', ''s3audio1''), (''s4paragraph1'', ''s4audio1''),
            (''s5paragraph1'', ''s5audio1''), (''s6paragraph1'', ''s6audio1'')]
       \<and> (\<exists>story1 story2 urls.
            synthesize_and_upload_audio cfg srv story
              = (narration_events cfg srv story, Inr story1)
          \<and> synthesize_audio cfg srv story
              = (narration_events cfg srv story, Inr (story2, urls))
          \<and> (\<forall>(f, a)\<in>set audio_fields.
                map_of story1 a
                  = (if present_nonempty story f
                     then Some (JStr (CDN_BASE cfg @ audio_key_of cfg srv f))
                     else map_of story a)
              \<and> map_of story2 a
                  = (if present_nonempty story f
                     then Some (JStr (CDN_BASE cfg @ ''/'' @ audio_key_of cfg srv f))
                     else map_of story a)
              \<and> map_of urls f
                  = (if present_nonempty story f
                     then Some (JStr (CDN_BASE cfg @ ''/'' @ audio_key_of cfg srv f))
                     else None))
          \<and> (\<forall>k. k \<notin> snd ` set audio_fields
                \<longrightarrow> map_of story1 k = map_of story k \<and> map_of story2 k = map_of story k))"
proof -
  let ?P = "\<lambda>(f, a). present_nonempty story f"
  let ?u1 = "\<lambda>p. JStr (cdn_url AppSingle cfg (audio_key_of cfg srv (fst p)))"
  let ?u2 = "\<lambda>p. JStr (cdn_url App cfg (audio_key_of cfg srv (fst p)))"
  let ?story1 = "foldl (\<lambda>s x. dict_set s (snd x) (?u1 x)) story (filter ?P audio_fields)"
  let ?story2 = "foldl (\<lambda>s x. dict_set s (snd x) (?u2 x)) story (filter ?P audio_fields)"
  let ?urls = "foldl (\<lambda>s x. dict_set s (fst x) (?u2 x)) [] (filter ?P audio_fields)"
  have same: "\<forall>(f, a)\<in>set audio_fields. map_of story f = map_of story f" by simp
  have same': "\<forall>(f, a)\<in>set audio_fields. map_of (fst (story, [])) f = map_of story f"
    by simp
  have d1: "distinct (map snd audio_fields)" and d2: "distinct (map fst audio_fields)"
    by (simp_all add: audio_fields_def)
  have r1: "synthesize_and_upload_audio cfg srv story
      = (narration_events cfg srv story, Inr ?story1)"
    unfolding synthesize_and_upload_audio_def narration_events_def narratable_def
    using audio_loop_single_run [OF assms same audio_keys_apart]
    by (simp add: split_def)
  have r2: "synthesize_audio cfg srv story
      = (narration_events cfg srv story, Inr (?story2, ?urls))"
    unfolding synthesize_audio_def narration_events_def narratable_def
    using audio_loop_run [OF assms same' audio_keys_apart]
    by (simp add: split_def)
  have fields: "\<forall>(f, a)\<in>set audio_fields.
                map_of ?story1 a
                  = (if present_nonempty story f
                     then Some (JStr (CDN_BASE cfg @ audio_key_of cfg srv f))
                     else map_of story a)
              \<and> map_of ?story2 a
                  = (if present_nonempty story f
                     then Some (JStr (CDN_BASE cfg @ ''/'' @ audio_key_of cfg srv f))
                     else map_of story a)
              \<and> map_of ?urls f
                  = (if present_nonempty story f
                     then Some (JStr (CDN_BASE cfg @ ''/'' @ audio_key_of cfg srv f))
                     else None)"
  proof (intro ballI, clarify)
    fix f a assume p: "(f, a) \<in> set audio_fields"
    from map_of_narrated [OF d1 p, of ?u1 story story]
         map_of_narrated [OF d1 p, of ?u2 story story]
         map_of_narrated [OF d2 p, of ?u2 "[]" story]
    show "map_of ?story1 a
                  = (if present_nonempty story f
                     then Some (JStr (CDN_BASE cfg @ audio_key_of cfg srv f))
                     else map_of story a)
              \<and> map_of ?story2 a
                  = (if present_nonempty story f
                     then Some (JStr (CDN_BASE cfg @ ''/'' @ audio_key_of cfg srv f))
                     else map_of story a)
              \<and> map_of ?urls f
                  = (if present_nonempty story f
                     then Some (JStr (CDN_BASE cfg @ ''/'' @ audio_key_of cfg srv f))
                     else None)"
      by (simp add: cdn_url_def)
  qed
  have others: "\<forall>k. k \<notin> snd ` set audio_fields
                \<longrightarrow> map_of ?story1 k = map_of story k \<and> map_of ?story2 k = map_of story k"
  proof (intro allI impI)
    fix k assume "k \<notin> snd ` set audio_fields"
    then have "k \<notin> snd ` set (filter ?P audio_fields)" by auto
    then show "map_of ?story1 k = map_of story k \<and> map_of ?story2 k = map_of story k"
      by (simp add: map_of_assigned_other)
  qed
  from r1 r2 fields others audio_fields_literal show ?thesis by blast
qed

theorem narration_fixed_mapping_witness:
  "audio_fields =
           [(''storytitle'', ''s1audio1''), (''s2paragraph1'', ''s2audio1''),
            (''s3paragraph1'', ''s3audio1''), (''s4paragraph1'', ''s4audio1''),
            (''s5paragraph1'', ''s5audio1''), (''s6paragraph1'', ''s6audio1'')]
       \<and> (\<exists>story1 story2 urls.
            synthesize_and_upload_audio demo_config demo_services quiet_story
              = (narration_events demo_config demo_services quiet_story, Inr story1)
          \<and> synthesize_audio demo_config demo_services quiet_story
              = (narration_events demo_config demo_services quiet_story, Inr (story2, urls))
          \<and> (\<forall>(f, a)\<in>set audio_fields.
                map_of story1 a
                  = (if present_nonempty quiet_story f
                     then Some (JStr (CDN_BASE demo_config @ audio_key_of demo_config demo_services f))
                     else map_of quiet_story a)
              \<and> map_of story2 a
                  = (if present_nonempty quiet_story f
                     then Some (JStr (CDN_BASE demo_config @ ''/'' @ audio_key_of demo_config demo_services f))
                     else map_of quiet_story a)
              \<and> map_of urls f
                  = (if present_nonempty quiet_story f
                     then Some (JStr (CDN_BASE demo_config @ ''/'' @ audio_key_of demo_config demo_services f))
                     else None))
          \<and> (\<forall>k. k \<notin> snd ` set audio_fields
                \<longrightarrow> map_of story1 k = map_of quiet_story k \<and> map_of story2 k = map_of quiet_story k))"
proof -
  have a: "\<forall>(f, a)\<in>set audio_fields. text_field quiet_story f" by code_simp
  have b: "\<forall>(f, a)\<in>set audio_fields. present_nonempty quiet_story f
             \<longrightarrow> audio_ok demo_config demo_services quiet_story f"
    by code_simp
  from narration_fixed_mapping [OF a b] show ?thesis .
qed

subsection \<open>fill_template\<close>

lemma replace_plain:
  "plain lit \<Longrightarrow> replace (placeholder k) v (lit @ rest) = lit @ replace (placeholder k) v rest"
  by (induction lit rule: plain.induct) (auto simp: placeholder_def)

lemma brace_free_plain: "brace_free n \<Longrightarrow> plain n"
  by (induction n rule: plain.induct) (auto simp: brace_free_def)

lemma placeholder_prefix_eq:
  "brace_free k \<Longrightarrow> brace_free n \<Longrightarrow> prefix (k @ ''}}'') (n @ ''}}'' @ rest) \<Longrightarrow> k = n"
proof (induction k arbitrary: n)
  case Nil
  then show ?case by (cases n) (auto simp: brace_free_def)
next
  case (Cons c k)
  from Cons.prems obtain n' where n: "n = c # n'"
    by (cases n) (auto simp: brace_free_def)
  with Cons.prems have "brace_free k" "brace_free n'" "prefix (k @ ''}}'') (n' @ ''}}'' @ rest)"
    by (auto simp: brace_free_def)
  with Cons.IH n show ?case by blast
qed

lemma replace_hole_same:
  "replace (placeholder k) v (placeholder k @ rest) = v @ replace (placeholder k) v rest"
proof -
  obtain c cs where p: "placeholder k = c # cs" by (auto simp: placeholder_def)
  have "replace (c # cs) v ((c # cs) @ rest) = v @ replace (c # cs) v rest" by simp
  with p show ?thesis by simp
qed

lemma replace_hole_other:
  assumes "brace_free k" and "brace_free n" and "n \<noteq> k"
  shows "replace (placeholder k) v (placeholder n @ rest)
       = placeholder n @ replace (placeholder k) v rest"
proof -
  let ?tail = "''}}'' @ rest"
  have a: "\<not> prefix (k @ ''}}'') (n @ ?tail)"
    using placeholder_prefix_eq [OF assms(1,2)] assms(3) by blast
  have b: "n @ ?tail \<noteq> [] \<and> hd (n @ ?tail) \<noteq> CHR ''{''"
    using assms(2) by (cases n) (auto simp: brace_free_def)
  have c: "replace (placeholder k) v (n @ ?tail) = n @ replace (placeholder k) v ?tail"
    by (rule replace_plain [OF brace_free_plain [OF assms(2)]])
  have d: "replace (placeholder k) v (''}}'' @ rest) = ''}}'' @ replace (placeholder k) v rest"
    by (rule replace_plain) simp
  obtain x xs where x: "n @ ?tail = x # xs" and xn: "x \<noteq> CHR ''{''"
    using b by (cases "n @ ?tail") auto
  have "replace (placeholder k) v (CHR ''{'' # x # xs)
      = CHR ''{'' # replace (placeholder k) v (x # xs)"
    using xn by (simp add: placeholder_def)
  then have e: "replace (placeholder k) v (CHR ''{'' # n @ ?tail)
      = CHR ''{'' # replace (placeholder k) v (n @ ?tail)"
    by (simp only: x)
  have f: "replace (placeholder k) v (CHR ''{'' # CHR ''{'' # n @ ?tail)
         = CHR ''{'' # replace (placeholder k) v (CHR ''{'' # n @ ?tail)"
    using a by (simp add: placeholder_def)
  have "placeholder n @ rest = CHR ''{'' # CHR ''{'' # n @ ?tail"
    by (simp add: placeholder_def)
  then have "replace (placeholder k) v (placeholder n @ rest)
      = CHR ''{'' # CHR ''{'' # n @ ''}}'' @ replace (placeholder k) v rest"
    by (simp only: f e c d)
  then show ?thesis by (simp add: placeholder_def)
qed

lemma render_Nil: "render [] = []"
  by (simp add: render_def)

lemma render_Lit: "render (Lit s # ps) = s @ render ps"
  by (simp add: render_def)

lemma render_Hole: "render (Hole n # ps) = placeholder n @ render ps"
  by (simp add: render_def placeholder_def)

lemma replace_render:
  assumes "\<forall>p\<in>set ps. well_formed p" and "brace_free k"
  shows "replace (placeholder k) v (render ps) = render (map (subst k v) ps)"
  using assms(1)
proof (induction ps)
  case Nil
  then show ?case by (simp add: render_Nil placeholder_def)
next
  case (Cons p ps)
  then have ih: "replace (placeholder k) v (render ps) = render (map (subst k v) ps)"
    by simp
  show ?case
  proof (cases p)
    case (Lit s)
    with Cons.prems have "plain s" by simp
    from replace_plain [OF this] ih Lit show ?thesis by (simp add: render_Lit)
  next
    case (Hole n)
    with Cons.prems have n: "brace_free n" by simp
    show ?thesis
    proof (cases "n = k")
      case True
      with Hole ih replace_hole_same [of k v "render ps"] show ?thesis
        by (simp add: render_Hole render_Lit)
    next
      case False
      with Hole ih replace_hole_other [OF assms(2) n False, of v "render ps"] show ?thesis
        by (simp add: render_Hole)
    qed
  qed
qed

lemma filled_Nil: "filled [] ps = render ps"
proof -
  have "filled_piece [] p = render_piece p" for p by (cases p) simp_all
  then have "filled_piece [] = render_piece" by (intro ext)
  then show ?thesis by (simp add: filled_def render_def)
qed

lemma filled_Cons:
  "filled story (map (subst k v) ps) = filled ((k, JStr v) # story) ps"
proof -
  have "filled_piece story (subst k v p) = filled_piece ((k, JStr v) # story) p" for p
    by (cases p) simp_all
  then have "(\<lambda>p. filled_piece story (subst k v p)) = filled_piece ((k, JStr v) # story)"
    by (intro ext)
  then show ?thesis by (simp add: filled_def comp_def)
qed

lemma fill_template_render:
  assumes "\<forall>kv\<in>set story. fits kv" and "\<forall>p\<in>set ps. well_formed p"
  shows "fill_template (render ps) story = Inr (filled story ps)"
  using assms
proof (induction story arbitrary: ps)
  case Nil
  then show ?case by (simp add: filled_Nil)
next
  case (Cons kv story)
  obtain k x where kv: "kv = (k, x)" by (cases kv)
  with Cons.prems(1) obtain v where x: "x = JStr v" and k: "brace_free k" and v: "plain v"
    by (cases x) auto
  have wf: "\<forall>p\<in>set (map (subst k v) ps). well_formed p"
  proof
    fix q assume "q \<in> set (map (subst k v) ps)"
    then obtain p where "p \<in> set ps" and q: "q = subst k v p" by auto
    with Cons.prems(2) have "well_formed p" by blast
    with q v show "well_formed q" by (cases p) auto
  qed
  from Cons.prems(1) have rest: "\<forall>kv\<in>set story. fits kv" by simp
  have "fill_template (render ps) (kv # story)
      = fill_template (replace (placeholder k) v (render ps)) story"
    by (simp add: kv x)
  also have "\<dots> = fill_template (render (map (subst k v) ps)) story"
    by (simp only: replace_render [OF Cons.prems(2) k])
  also have "\<dots> = Inr (filled story (map (subst k v) ps))"
    by (rule Cons.IH [OF rest wf])
  also have "\<dots> = Inr (filled (kv # story) ps)"
    by (simp add: filled_Cons kv x)
  finally show ?case .
qed

text \<open>
  C1, as amended. For a template made of well-formed pieces (plain literal chunks and
  placeholders with brace-free names) and a record whose entries fit (brace-free field
  names, values that are plain strings), fill_template returns the template with every
  placeholder whose name is a field of the record replaced by the value of that field, and
  with all other text unchanged; in particular a placeholder whose name is not a field of
  the record stays literally in the output.
\<close>

theorem fill_template_substitutes:
  assumes "\<forall>kv\<in>set story. fits kv" and "\<forall>p\<in>set pieces. well_formed p"
  shows "fill_template (render pieces) story = Inr (filled story pieces)"
  using assms by (rule fill_template_render)

theorem fill_template_substitutes_witness:
  "fill_template (render demo_pieces) demo_story = Inr (filled demo_story demo_pieces)"
proof -
  have a: "\<forall>kv\<in>set demo_story. fits kv" by code_simp
  have b: "\<forall>p\<in>set demo_pieces. well_formed p" by code_simp
  from fill_template_substitutes [OF a b] show ?thesis .
qed

text \<open>
  The claim C1 as it was stated, for every template and every record of strings, fails:
  the fields are put in one after the other, so a value that holds a placeholder is filled
  again. The template is the placeholder of storytitle, the title is the placeholder of
  s2paragraph1: the claim gives the title, the code gives the paragraph. The same happens
  without a brace in any value, when a placeholder stands between braces in the template.
\<close>

theorem fill_template_sequential_counterexample:
  "render [Hole ''storytitle''] = ''{{storytitle}}''
   \<and> filled [(''storytitle'', JStr ''{{s2paragraph1}}''), (''s2paragraph1'', JStr ''X'')]
        [Hole ''storytitle''] = ''{{s2paragraph1}}''
   \<and> fill_template ''{{storytitle}}''
        [(''storytitle'', JStr ''{{s2paragraph1}}''), (''s2paragraph1'', JStr ''X'')] = Inr ''X''
   \<and> render [Lit ''{{'', Hole ''x'', Lit ''}}''] = ''{{{{x}}}}''
   \<and> filled [(''x'', JStr ''b''), (''b'', JStr ''Z'')] [Lit ''{{'', Hole ''x'', Lit ''}}'']
       = ''{{b}}''
   \<and> fill_template ''{{{{x}}}}'' [(''x'', JStr ''b''), (''b'', JStr ''Z'')] = Inr ''Z''"
  by code_simp

subsection \<open>The growth of the record\<close>

lemma grows_refl: "grows W story story"
  by (simp add: grows_def)

lemma keys_dict_set: "prefix (map fst d) (map fst (dict_set d k v))"
  by (simp add: dict_set_def update_keys)

lemma grows_dict_set:
  assumes "grows W story st" and "k \<in> W"
  shows "grows W story (dict_set st k (JStr u))"
proof -
  from assms(1) have "prefix (map fst story) (map fst st)" by (simp add: grows_def)
  with keys_dict_set [of st k "JStr u"]
  have "prefix (map fst story) (map fst (dict_set st k (JStr u)))"
    using prefix_order.order_trans by blast
  with assms show ?thesis
    by (auto simp: grows_def map_of_dict_set is_str_def)
qed

lemma slide_step_InrD:
  assumes "snd (slide_step var cfg srv slg st j) = Inr (st', img)"
  shows "st' = dict_set st (image_key j) (JStr (cdn_url var cfg (slide_object_key cfg slg j)))"
  using assms
  by (auto simp: slide_step_def snd_bind_io ret_def split: sum.splits)

lemma image_loop_grows:
  assumes "snd (image_loop var cfg srv slg js (st, l)) = Inr (st', l')"
    and "\<forall>j\<in>set js. image_key j \<in> W"
    and "grows W story st"
  shows "grows W story st'"
  using assms
proof (induction js arbitrary: st l)
  case Nil
  then show ?case by (simp add: ret_def)
next
  case (Cons j js)
  let ?m = "slide_step var cfg srv slg st j"
  show ?case
  proof (cases "snd ?m")
    case (Inl e)
    with Cons.prems(1) show ?thesis by (simp add: snd_bind_io)
  next
    case (Inr r)
    obtain st1 img where r: "r = (st1, img)" by (cases r)
    from Inr r have "snd ?m = Inr (st1, img)" by simp
    then have "st1 = dict_set st (image_key j) (JStr (cdn_url var cfg (slide_object_key cfg slg j)))"
      by (rule slide_step_InrD)
    with Cons.prems(2,3) have g: "grows W story st1" by (simp add: grows_dict_set)
    from Cons.prems(1) Inr r
    have rest: "snd (image_loop var cfg srv slg js (st1, Some img)) = Inr (st', l')"
      by (simp add: snd_bind_io)
    from Cons.prems(2) have "\<forall>j\<in>set js. image_key j \<in> W" by simp
    from Cons.IH [OF rest this g] show ?thesis .
  qed
qed

lemma image_keys_outputs: "\<forall>j\<in>set [1..<7]. image_key j \<in> image_outputs"
  unfolding slides by (simp add: image_keys image_outputs_def)

lemma image_pipeline_grows:
  assumes "snd (image_pipeline var cfg srv story) = Inr story'"
  shows "grows image_outputs story story'"
proof (cases "slug var story")
  case (Inl e)
  with assms show ?thesis
    by (cases var) (simp_all add: image_pipeline_def generate_images_def
        generate_images_and_upload_def lift_def)
next
  case (Inr slg)
  let ?loop = "image_loop var cfg srv slg [1..<7] (story, None)"
  have run: "snd (image_pipeline var cfg srv story)
      = (case snd ?loop of
           Inl e \<Rightarrow> Inl e
         | Inr r \<Rightarrow>
             (case var of
                App \<Rightarrow> Inr (fst r)
              | AppSingle \<Rightarrow>
                  (case snd r of
                     None \<Rightarrow> Inl (Exn NameError ''img'')
                   | Some cover_img \<Rightarrow>
                       (case snd (publish cfg srv cover_img (cover_object_key cfg slg)) of
                          Inl e \<Rightarrow> Inl e
                        | Inr u \<Rightarrow>
                            Inr (dict_set (fst r) ''portraitcoverurl''
                                   (JStr (cdn_url AppSingle cfg (cover_object_key cfg slg))))))))"
  proof (cases var)
    case App
    with Inr have "image_pipeline var cfg srv story
          = bind_io (image_loop App cfg srv slg [1..<7] (story, None))
              (\<lambda>(story', last_img). ret story')"
      by (simp only: image_pipeline_def variant.case generate_images_def bind_io_lift_Inr)
    then show ?thesis using App
      by (simp add: snd_bind_io ret_def split_def split: sum.splits)
  next
    case AppSingle
    with Inr have "image_pipeline var cfg srv story
          = bind_io (image_loop AppSingle cfg srv slg [1..<7] (story, None))
          (\<lambda>(story', last_img).
             case last_img of
               None \<Rightarrow> lift (Inl (Exn NameError ''img''))
             | Some cover_img \<Rightarrow>
                 bind_io (publish cfg srv cover_img (cover_object_key cfg slg)) (\<lambda>_.
                 ret (dict_set story' ''portraitcoverurl''
                        (JStr (cdn_url AppSingle cfg (cover_object_key cfg slg))))))"
      by (simp only: image_pipeline_def variant.case generate_images_and_upload_def
            bind_io_lift_Inr)
    then show ?thesis using AppSingle
      by (simp add: snd_bind_io ret_def lift_def split_def split: sum.splits option.splits)
  qed
  from assms run obtain st l' where l: "snd ?loop = Inr (st, l')"
    by (cases "snd ?loop") auto
  from image_loop_grows [OF l image_keys_outputs grows_refl]
  have g: "grows image_outputs story st" .
  from assms run l have "story' = st \<or> story' = dict_set st ''portraitcoverurl''
                        (JStr (cdn_url AppSingle cfg (cover_object_key cfg slg)))"
    by (cases var) (auto split: option.splits sum.splits)
  with g show ?thesis by (auto simp: grows_dict_set image_outputs_def)
qed

lemma audio_loop_single_grows:
  assumes "snd (audio_loop_single cfg srv fs st) = Inr st'"
    and "\<forall>(f, a)\<in>set fs. a \<in> W"
    and "grows W story st"
  shows "grows W story st'"
  using assms
proof (induction fs arbitrary: st)
  case Nil
  then show ?case by (simp add: ret_def)
next
  case (Cons p fs)
  obtain f a where p: "p = (f, a)" by (cases p)
  let ?m = "narrate AppSingle cfg srv st f"
  from Cons.prems(2) p have a: "a \<in> W" and rest: "\<forall>(f, a)\<in>set fs. a \<in> W" by simp_all
  show ?case
  proof (cases "snd ?m")
    case (Inl e)
    with Cons.prems(1) p show ?thesis by (simp add: snd_bind_io)
  next
    case (Inr r)
    show ?thesis
    proof (cases r)
      case None
      with Cons.prems(1) p Inr have "snd (audio_loop_single cfg srv fs st) = Inr st'"
        by (simp add: snd_bind_io)
      from Cons.IH [OF this rest Cons.prems(3)] show ?thesis .
    next
      case (Some url)
      with Cons.prems(1) p Inr
      have "snd (audio_loop_single cfg srv fs (dict_set st a (JStr url))) = Inr st'"
        by (simp add: snd_bind_io)
      from Cons.IH [OF this rest grows_dict_set [OF Cons.prems(3) a]] show ?thesis .
    qed
  qed
qed

lemma audio_loop_grows:
  assumes "snd (audio_loop cfg srv fs st) = Inr st'"
    and "\<forall>(f, a)\<in>set fs. a \<in> W"
    and "grows W story (fst st)"
  shows "grows W story (fst st')"
  using assms
proof (induction fs arbitrary: st)
  case Nil
  then show ?case by (simp add: ret_def)
next
  case (Cons p fs)
  obtain f a where p: "p = (f, a)" by (cases p)
  let ?m = "narrate App cfg srv (fst st) f"
  from Cons.prems(2) p have a: "a \<in> W" and rest: "\<forall>(f, a)\<in>set fs. a \<in> W" by simp_all
  show ?case
  proof (cases "snd ?m")
    case (Inl e)
    with Cons.prems(1) p show ?thesis by (simp add: snd_bind_io)
  next
    case (Inr r)
    show ?thesis
    proof (cases r)
      case None
      with Cons.prems(1) p Inr have "snd (audio_loop cfg srv fs st) = Inr st'"
        by (simp add: snd_bind_io)
      from Cons.IH [OF this rest Cons.prems(3)] show ?thesis .
    next
      case (Some url)
      with Cons.prems(1) p Inr
      have "snd (audio_loop cfg srv fs
                   (dict_set (fst st) a (JStr url), dict_set (snd st) f (JStr url))) = Inr st'"
        by (simp add: snd_bind_io)
      from Cons.IH [OF this rest] grows_dict_set [OF Cons.prems(3) a] show ?thesis by simp
    qed
  qed
qed

lemma audio_keys_outputs: "\<forall>(f, a)\<in>set audio_fields. a \<in> audio_outputs"
  by (simp add: audio_fields_def audio_outputs_def)

lemma dict_update_keys: "prefix (map fst d) (map fst (dict_update d e))"
proof -
  have step: "prefix (map fst d0) (map fst (foldl (\<lambda>acc (k, v). dict_set acc k v) d e))"
    if "prefix (map fst d0) (map fst d)" for d0 d :: story
    using that
  proof (induction e arbitrary: d)
    case Nil
    then show ?case by simp
  next
    case (Cons p e)
    obtain k v where p: "p = (k, v)" by (cases p)
    from Cons.prems keys_dict_set [of d k v]
    have "prefix (map fst d0) (map fst (dict_set d k v))"
      using prefix_order.order_trans by blast
    from Cons.IH [OF this] p show ?case by simp
  qed
  from step [of d d] show ?thesis by (simp add: dict_update_def)
qed

lemma dict_update_other:
  "k \<notin> fst ` set e \<Longrightarrow> map_of (dict_update d e) k = map_of d k"
  unfolding dict_update_def
  by (induction e arbitrary: d) (auto simp: map_of_dict_set)

lemma dict_update_entries:
  "map_of (dict_update d e) k = Some v \<Longrightarrow> map_of d k = Some v \<or> (k, v) \<in> set e"
  unfolding dict_update_def
proof (induction e arbitrary: d)
  case Nil
  then show ?case by simp
next
  case (Cons p e)
  obtain k' v' where p: "p = (k', v')" by (cases p)
  from Cons.prems p
  have "map_of (foldl (\<lambda>acc (k, v). dict_set acc k v) (dict_set d k' v') e) k = Some v"
    by simp
  from Cons.IH [OF this] have "map_of (dict_set d k' v') k = Some v \<or> (k, v) \<in> set e" .
  with p show ?case by (auto simp: map_of_dict_set split: if_splits)
qed

lemma dict_update_Cons: "dict_update d ((k, v) # e) = dict_update (dict_set d k v) e"
  by (simp add: dict_update_def)

lemma dict_update_carried:
  "distinct (map fst e) \<Longrightarrow> (k, v) \<in> set e \<Longrightarrow> map_of (dict_update d e) k = Some v"
proof (induction e arbitrary: d)
  case Nil
  then show ?case by simp
next
  case (Cons p e)
  obtain k' v' where p: "p = (k', v')" by (cases p)
  show ?case
  proof (cases "(k, v) = p")
    case True
    with Cons.prems(1) p have "k \<notin> fst ` set e" and kv: "k' = k" "v' = v" by auto
    from dict_update_other [OF this(1), of "dict_set d k v"]
    have "map_of (dict_update (dict_set d k v) e) k = Some v"
      by (simp add: map_of_dict_set)
    with p kv show ?thesis by (simp only: dict_update_Cons)
  next
    case False
    with Cons.prems have "distinct (map fst e)" "(k, v) \<in> set e" by auto
    from Cons.IH [OF this, of "dict_set d k' v'"] p show ?thesis
      by (simp only: dict_update_Cons)
  qed
qed

text \<open>
  C8, as amended. When the image pipeline or the narration pipeline returns, the record
  has grown over the fields that the stage writes (s1image1 ... s6image1 and
  portraitcoverurl; s1audio1 ... s6audio1): the keys of the input come first and in their
  order, every other key keeps its value, and what is new or changed is a string under one
  of these fields. The merge of the metadata keeps the keys of the input first and in their
  order, keeps the value of every key that the metadata do not carry, and every entry of
  the result is an entry of the input or of the metadata; when the keys of the metadata
  differ from each other, every entry of the metadata is an entry of the result. So what
  the merge adds is a string only where the decoded metadata hold strings, and a key that
  the metadata carry is overwritten.
\<close>

theorem stages_extend_record:
  "(image_pipeline var cfg srv story = (es, Inr story') \<longrightarrow> grows image_outputs story story')
   \<and> (synthesize_and_upload_audio cfg srv story = (es1, Inr story1)
        \<longrightarrow> grows audio_outputs story story1)
   \<and> (synthesize_audio cfg srv story = (es2, Inr (story2, urls))
        \<longrightarrow> grows audio_outputs story story2)
   \<and> prefix (map fst story) (map fst (dict_update story kvs))
   \<and> (\<forall>k. k \<notin> fst ` set kvs \<longrightarrow> map_of (dict_update story kvs) k = map_of story k)
   \<and> (\<forall>k v. map_of (dict_update story kvs) k = Some v
          \<longrightarrow> map_of story k = Some v \<or> (k, v) \<in> set kvs)
   \<and> (distinct (map fst kvs)
        \<longrightarrow> (\<forall>(k, v)\<in>set kvs. map_of (dict_update story kvs) k = Some v))"
proof -
  have a: "image_pipeline var cfg srv story = (es, Inr story')
      \<longrightarrow> grows image_outputs story story'"
    using image_pipeline_grows [of var cfg srv story story'] by simp
  have b: "synthesize_and_upload_audio cfg srv story = (es1, Inr story1)
        \<longrightarrow> grows audio_outputs story story1"
    unfolding synthesize_and_upload_audio_def
    using audio_loop_single_grows [OF _ audio_keys_outputs grows_refl, of cfg srv story story1]
    by simp
  have c: "synthesize_audio cfg srv story = (es2, Inr (story2, urls))
        \<longrightarrow> grows audio_outputs story story2"
    unfolding synthesize_audio_def
    using audio_loop_grows [OF _ audio_keys_outputs, of cfg srv "(story, [])" "(story2, urls)" story]
    by (simp add: grows_refl)
  have d: "prefix (map fst story) (map fst (dict_update story kvs))"
    by (rule dict_update_keys)
  have e: "\<forall>k. k \<notin> fst ` set kvs \<longrightarrow> map_of (dict_update story kvs) k = map_of story k"
    by (simp add: dict_update_other)
  have f: "\<forall>k v. map_of (dict_update story kvs) k = Some v
          \<longrightarrow> map_of story k = Some v \<or> (k, v) \<in> set kvs"
    using dict_update_entries by blast
  have g: "distinct (map fst kvs)
        \<longrightarrow> (\<forall>(k, v)\<in>set kvs. map_of (dict_update story kvs) k = Some v)"
    using dict_update_carried by blast
  from a b c d e f g show ?thesis by (intro conjI)
qed

text \<open>
  The claim C8 as it was stated fails at the merge of the metadata: for the populated record
  and a model answer that decodes to an object with the keys storytitle and metakeywords,
  the title of the input is overwritten and the value added for metakeywords is a list.
\<close>

theorem seo_merge_counterexample:
  "snd (generate_seo App unruly_services demo_story) = Inr (JObj unruly_fields)
   \<and> map_of demo_story ''storytitle'' = Some (JStr ''How Plants Eat Sunlight'')
   \<and> map_of (dict_update demo_story unruly_fields) ''storytitle'' = Some (JStr ''Changed'')
   \<and> map_of (dict_update demo_story unruly_fields) ''metakeywords''
       = Some (JArr [JStr ''a'', JStr ''b''])"
  by code_simp

theorem stages_extend_record_witness:
  "grows image_outputs demo_story demo_illustrated
   \<and> grows audio_outputs demo_story demo_narrated
   \<and> grows audio_outputs demo_story (fst demo_narrated_app)
   \<and> prefix (map fst demo_story) (map fst (dict_update demo_story seo_default_fields))
   \<and> map_of (dict_update demo_story seo_default_fields) ''storytitle''
       = map_of demo_story ''storytitle''
   \<and> (map_of demo_story ''metakeywords'' = Some (JStr [])
        \<or> (''metakeywords'', JStr []) \<in> set seo_default_fields)
   \<and> map_of (dict_update demo_story seo_default_fields) ''metadescription'' = Some (JStr [])"
proof -
  have a: "image_pipeline AppSingle demo_config failing_services demo_story
       = (fst (image_pipeline AppSingle demo_config failing_services demo_story),
          Inr demo_illustrated)"
    by code_simp
  have b: "synthesize_and_upload_audio demo_config failing_services demo_story
       = (fst (synthesize_and_upload_audio demo_config failing_services demo_story),
          Inr demo_narrated)"
    by code_simp
  have c: "synthesize_audio demo_config failing_services demo_story
       = (fst (synthesize_audio demo_config failing_services demo_story),
          Inr (fst demo_narrated_app, snd demo_narrated_app))"
    by code_simp
  have d: "''storytitle'' \<notin> fst ` set seo_default_fields"
    by (simp add: seo_default_fields_def)
  have e: "map_of (dict_update demo_story seo_default_fields) ''metakeywords'' = Some (JStr [])"
    by code_simp
  have f: "distinct (map fst seo_default_fields)"
    by (simp add: seo_default_fields_def)
  have g: "(''metadescription'', JStr []) \<in> set seo_default_fields"
    by (simp add: seo_default_fields_def)
  note t = stages_extend_record [of AppSingle demo_config failing_services demo_story
      "fst (image_pipeline AppSingle demo_config failing_services demo_story)" demo_illustrated
      "fst (synthesize_and_upload_audio demo_config failing_services demo_story)" demo_narrated
      "fst (synthesize_audio demo_config failing_services demo_story)"
      "fst demo_narrated_app" "snd demo_narrated_app" seo_default_fields]
  from t f g have h: "map_of (dict_update demo_story seo_default_fields) ''metadescription''
      = Some (JStr [])"
    by blast
  from t a b c d e h show ?thesis by blast
qed

end
